theory Spec2Isabelle
  imports Main "HOL-Library.Word" "HOL-Library.Monad_Syntax"
begin

unbundle bit_operations_syntax

section \<open>RSA padding (lib/rsa\_padding.c): data model\<close>

text \<open>
  Bytes are \<open>8 word\<close>, the \<open>UINT32\<close> flags and loop counters of the source are
  \<open>32 word\<close>. A buffer handed over as a (pointer, size) pair is one byte list, whose
  length is the size; a pointer that may be \<open>NULL\<close> is an \<open>option\<close>.

  \<open>SIZE_T\<close> is taken to be 64 bits wide. Sizes are held as naturals. A sum of buffer
  sizes and small constants is the natural-number sum (the buffers are objects in memory,
  so these sums stay below \<open>2 ^ 64\<close>); a difference that the source has guarded by a
  comparison is the natural-number difference; a difference that the source computes with
  no guard is written with its wrap-around (\<open>size_sub\<close>).

  A function of the source that loops on a \<open>UINT32\<close> counter against a \<open>SIZE_T\<close> bound
  may run forever; such a function returns an \<open>option\<close>, and \<open>None\<close> is the call that
  does not return.
\<close>

type_synonym byte = "8 word"

datatype SYMCRYPT_ERROR =
    SYMCRYPT_NO_ERROR
  | SYMCRYPT_INVALID_ARGUMENT
  | SYMCRYPT_BUFFER_TOO_SMALL
  | SYMCRYPT_SIGNATURE_VERIFICATION_FAILURE
  | SYMCRYPT_EXTERNAL_FAILURE

definition size_sub :: "nat \<Rightarrow> nat \<Rightarrow> nat" where
  "size_sub a b = unat ((of_nat a :: 64 word) - of_nat b)"

text \<open>\<open>memcpy (dst + off, src, n)\<close> and \<open>memset (dst + off, v, n)\<close> on byte lists.\<close>

definition memcpy :: "byte list \<Rightarrow> nat \<Rightarrow> byte list \<Rightarrow> nat \<Rightarrow> byte list" where
  "memcpy dst off src n = take off dst @ map (\<lambda>i. src ! i) [0..<n] @ drop (off + n) dst"

definition memset :: "byte list \<Rightarrow> nat \<Rightarrow> byte \<Rightarrow> nat \<Rightarrow> byte list" where
  "memset dst off v n = take off dst @ replicate n v @ drop (off + n) dst"

text \<open>
  Modelled from the spec: the constant-time helpers \<open>SymCryptWipe\<close> (memory wipe) and
  \<open>SymCryptEqual\<close> (byte-slice equality over the full length) are declared outside
  the source file; the wipe zeroes \<open>n\<close> bytes, the comparison is equality of the first
  \<open>n\<close> bytes.
\<close>

definition SymCryptWipe :: "byte list \<Rightarrow> nat \<Rightarrow> nat \<Rightarrow> byte list" where
  "SymCryptWipe dst off n = memset dst off 0 n"

definition SymCryptEqual :: "byte list \<Rightarrow> byte list \<Rightarrow> nat \<Rightarrow> bool" where
  "SymCryptEqual a b n = (take n a = take n b)"

text \<open>The \<open>n\<close> bytes at \<open>buf + off\<close>.\<close>

definition region :: "byte list \<Rightarrow> nat \<Rightarrow> nat \<Rightarrow> byte list" where
  "region buf off n = take n (drop off buf)"

text \<open>
  Modelled from the spec: the hash adapter (\<open>PCSYMCRYPT_HASH\<close> and the functions
  \<open>SymCryptHashResultSize\<close>, \<open>SymCryptHashStateSize\<close>, \<open>SymCryptHash\<close>,
  \<open>SymCryptHashInit\<close>, \<open>SymCryptHashAppend\<close>, \<open>SymCryptHashResult\<close>) is declared outside
  the source file. A hash descriptor carries the digest's output length, its state size
  and the digest function; the streaming state is the data appended so far, and the
  result of a streamed hash is the digest of that data. The digest is copied to the
  caller's buffer by the caller's byte count.
\<close>

record SYMCRYPT_HASH =
  resultSize :: nat
  stateSize :: nat
  digest :: "byte list \<Rightarrow> byte list"

definition SymCryptHashResultSize :: "SYMCRYPT_HASH \<Rightarrow> nat" where
  "SymCryptHashResultSize H = resultSize H"

definition SymCryptHashStateSize :: "SYMCRYPT_HASH \<Rightarrow> nat" where
  "SymCryptHashStateSize H = stateSize H"

definition SymCryptHashInit :: "byte list" where
  "SymCryptHashInit = []"

definition SymCryptHashAppend :: "byte list \<Rightarrow> byte list \<Rightarrow> byte list" where
  "SymCryptHashAppend st pbData = st @ pbData"

definition SymCryptHashResult :: "SYMCRYPT_HASH \<Rightarrow> byte list \<Rightarrow> byte list \<Rightarrow> nat \<Rightarrow> nat \<Rightarrow> byte list" where
  "SymCryptHashResult H st pbResult off cbResult = memcpy pbResult off (digest H st) cbResult"

definition SymCryptHash :: "SYMCRYPT_HASH \<Rightarrow> byte list \<Rightarrow> byte list \<Rightarrow> nat \<Rightarrow> nat \<Rightarrow> byte list" where
  "SymCryptHash H pbData pbResult off cbResult = memcpy pbResult off (digest H pbData) cbResult"

text \<open>
  Modelled from the spec: the random source (\<open>SymCryptCallbackRandom\<close>) is a callback
  declared outside the source file, which fills a caller buffer with random bytes and
  may fail. A source is given by the bytes it delivers, in the order in which they are
  delivered, and by the error code of each of its calls; its state is the number of
  bytes delivered and the number of calls made so far.
\<close>

record random_source =
  rnd_bytes :: "nat \<Rightarrow> byte"
  rnd_result :: "nat \<Rightarrow> SYMCRYPT_ERROR"

type_synonym rng_state = "nat \<times> nat"

definition SymCryptCallbackRandom ::
  "random_source \<Rightarrow> rng_state \<Rightarrow> nat \<Rightarrow> SYMCRYPT_ERROR \<times> byte list \<times> rng_state" where
  "SymCryptCallbackRandom R s cb =
     (rnd_result R (snd s), map (rnd_bytes R) [fst s ..< fst s + cb], (fst s + cb, Suc (snd s)))"

text \<open>
  Modelled from the spec: the two flag bits of the PKCS\#1 signature functions are
  defined in the library header, which is not part of the source file; each is a single
  bit (\<open>0x0001\<close> and \<open>0x0002\<close>).
\<close>

definition SYMCRYPT_FLAG_RSA_PKCS1_NO_ASN1 :: "32 word" where
  "SYMCRYPT_FLAG_RSA_PKCS1_NO_ASN1 = 1"

definition SYMCRYPT_FLAG_RSA_PKCS1_OPTIONAL_HASH_OID :: "32 word" where
  "SYMCRYPT_FLAG_RSA_PKCS1_OPTIONAL_HASH_OID = 2"

definition ASN1_SEQUENCE_BYTE :: byte where
  "ASN1_SEQUENCE_BYTE = 0x30"

definition ASN1_OCTET_STRING_BYTE :: byte where
  "ASN1_OCTET_STRING_BYTE = 0x04"

definition PKCS_BLOCKTYPE_2 :: byte where
  "PKCS_BLOCKTYPE_2 = 0x02"

record SYMCRYPT_OID =
  cbOID :: nat
  pbOID :: "byte list option"

definition SymCryptMd5OidList :: "SYMCRYPT_OID list" where
  "SymCryptMd5OidList =
    [\<lparr>cbOID = 12, pbOID = Some [0x06, 0x08, 0x2a, 0x86, 0x48, 0x86, 0xf7, 0x0d, 0x02, 0x05, 0x05, 0x00]\<rparr>,
     \<lparr>cbOID = 10, pbOID = Some [0x06, 0x08, 0x2a, 0x86, 0x48, 0x86, 0xf7, 0x0d, 0x02, 0x05]\<rparr>]"

definition SymCryptSha1OidList :: "SYMCRYPT_OID list" where
  "SymCryptSha1OidList =
    [\<lparr>cbOID = 9, pbOID = Some [0x06, 0x05, 0x2b, 0x0e, 0x03, 0x02, 0x1a, 0x05, 0x00]\<rparr>,
     \<lparr>cbOID = 7, pbOID = Some [0x06, 0x05, 0x2b, 0x0e, 0x03, 0x02, 0x1a]\<rparr>]"

definition SymCryptSha256OidList :: "SYMCRYPT_OID list" where
  "SymCryptSha256OidList =
    [\<lparr>cbOID = 13, pbOID = Some [0x06, 0x09, 0x60, 0x86, 0x48, 0x01, 0x65, 0x03, 0x04, 0x02, 0x01, 0x05, 0x00]\<rparr>,
     \<lparr>cbOID = 11, pbOID = Some [0x06, 0x09, 0x60, 0x86, 0x48, 0x01, 0x65, 0x03, 0x04, 0x02, 0x01]\<rparr>]"

definition SymCryptSha384OidList :: "SYMCRYPT_OID list" where
  "SymCryptSha384OidList =
    [\<lparr>cbOID = 13, pbOID = Some [0x06, 0x09, 0x60, 0x86, 0x48, 0x01, 0x65, 0x03, 0x04, 0x02, 0x02, 0x05, 0x00]\<rparr>,
     \<lparr>cbOID = 11, pbOID = Some [0x06, 0x09, 0x60, 0x86, 0x48, 0x01, 0x65, 0x03, 0x04, 0x02, 0x02]\<rparr>]"

definition SymCryptSha512OidList :: "SYMCRYPT_OID list" where
  "SymCryptSha512OidList =
    [\<lparr>cbOID = 13, pbOID = Some [0x06, 0x09, 0x60, 0x86, 0x48, 0x01, 0x65, 0x03, 0x04, 0x02, 0x03, 0x05, 0x00]\<rparr>,
     \<lparr>cbOID = 11, pbOID = Some [0x06, 0x09, 0x60, 0x86, 0x48, 0x01, 0x65, 0x03, 0x04, 0x02, 0x03]\<rparr>]"

section \<open>PKCS\#1 v1.5 signature padding\<close>

text \<open>
  \<open>SymCryptRsaPkcs1ApplySignaturePadding\<close>. The arguments are the hash (its length is
  \<open>cbHash\<close>), the OID pointer and \<open>cbHashOid\<close>, the flags, and the output buffer as the
  caller hands it over (its length is \<open>cbPKCS1Format\<close>). The result is the error code
  and the buffer after the call; the stores are those of the source, in its order.
\<close>

definition SymCryptRsaPkcs1ApplySignaturePadding ::
  "byte list \<Rightarrow> byte list option \<Rightarrow> nat \<Rightarrow> 32 word \<Rightarrow> byte list
     \<Rightarrow> SYMCRYPT_ERROR \<times> byte list" where
  "SymCryptRsaPkcs1ApplySignaturePadding pbHash pbHashOid cbHashOid flags pbPKCS1Format =
    (let cbHash = length pbHash;
         cbPKCS1Format = length pbPKCS1Format
     in
     if flags AND NOT SYMCRYPT_FLAG_RSA_PKCS1_NO_ASN1 \<noteq> 0
     then (SYMCRYPT_INVALID_ARGUMENT, pbPKCS1Format)
     else
       let fInsertASN1 = (flags AND SYMCRYPT_FLAG_RSA_PKCS1_NO_ASN1 = 0);
           fOid = (pbHashOid \<noteq> None \<and> cbHashOid > 0)
       in
       if fInsertASN1 \<and> \<not> fOid \<and> cbHashOid > 0
       then (SYMCRYPT_INVALID_ARGUMENT, pbPKCS1Format)
       else
         let cbEncoding =
               (if fInsertASN1
                then (if fOid then 6 + cbHashOid + cbHash else 2 + cbHash)
                else cbHash)
         in
         if cbEncoding > 0x80
         then (SYMCRYPT_INVALID_ARGUMENT, pbPKCS1Format)
         else if 3 + 8 + cbEncoding > cbPKCS1Format
         then (SYMCRYPT_INVALID_ARGUMENT, pbPKCS1Format)
         else
           let cbPadding = cbPKCS1Format - 3 - cbEncoding;
               b0 = pbPKCS1Format[0 := 0x00];
               b1 = b0[1 := 0x01];
               b2 = b1[2 + cbPadding := 0x00];
               b3 = memset b2 2 0xff cbPadding
           in
           if fInsertASN1
           then
             let cbOidOffset = (if fOid then 1 + 4 else 1);
                 b4 = (if fOid
                       then
                         let c0 = b3[2 + cbPadding + 1 := ASN1_SEQUENCE_BYTE];
                             c1 = c0[2 + cbPadding + 2 := of_nat cbEncoding - 2];
                             c2 = c1[2 + cbPadding + 3 := ASN1_SEQUENCE_BYTE];
                             c3 = c2[2 + cbPadding + 4 := of_nat cbHashOid]
                         in memcpy c3 (2 + cbPadding + (1 + 4)) (the pbHashOid) cbHashOid
                       else b3);
                 b5 = b4[2 + cbPadding + cbOidOffset + cbHashOid := ASN1_OCTET_STRING_BYTE];
                 b6 = b5[2 + cbPadding + cbOidOffset + cbHashOid + 1 := of_nat cbHash]
             in (SYMCRYPT_NO_ERROR,
                 memcpy b6 (2 + cbPadding + cbOidOffset + cbHashOid + 2) pbHash cbHash)
           else (SYMCRYPT_NO_ERROR, memcpy b3 (3 + cbPadding) pbHash cbHash))"

text \<open>
  \<open>SymCryptRsaPkcs1CheckSignaturePadding\<close>: wipe the scratch buffer, apply the padding
  into it, compare with the observed block. The observed block carries
  \<open>cbPKCS1Format\<close> as its length; the scratch buffer has at least that many bytes and
  the padding is applied to its first \<open>cbPKCS1Format\<close> bytes. The result is the error
  code and the scratch buffer after the call.
\<close>

definition SymCryptRsaPkcs1CheckSignaturePadding ::
  "byte list \<Rightarrow> byte list option \<Rightarrow> nat \<Rightarrow> byte list \<Rightarrow> 32 word \<Rightarrow> byte list
     \<Rightarrow> SYMCRYPT_ERROR \<times> byte list" where
  "SymCryptRsaPkcs1CheckSignaturePadding pbHash pbHashOid cbHashOid pbPKCS1Format flags pbScratch =
    (let cbPKCS1Format = length pbPKCS1Format;
         s0 = SymCryptWipe pbScratch 0 cbPKCS1Format;
         (scError, blk) =
            SymCryptRsaPkcs1ApplySignaturePadding pbHash pbHashOid cbHashOid flags
              (take cbPKCS1Format s0);
         s1 = blk @ drop cbPKCS1Format s0
     in
     if scError \<noteq> SYMCRYPT_NO_ERROR then (scError, s1)
     else if SymCryptEqual s1 pbPKCS1Format cbPKCS1Format
     then (SYMCRYPT_NO_ERROR, s1)
     else (SYMCRYPT_SIGNATURE_VERIFICATION_FAILURE, s1))"

text \<open>
  The loop of \<open>SymCryptRsaPkcs1VerifySignaturePadding\<close> over the OID array:
  \<open>for (i = 0; i < nOIDCount; i++)\<close> with a \<open>UINT32 i\<close>, left at the first entry
  whose check succeeds. The state is the counter, the last error code and the scratch
  buffer.
\<close>

partial_function (option) pkcs1_verify_loop ::
  "byte list \<Rightarrow> SYMCRYPT_OID list \<Rightarrow> nat \<Rightarrow> byte list \<Rightarrow> 32 word
     \<Rightarrow> SYMCRYPT_ERROR \<times> byte list \<Rightarrow> (SYMCRYPT_ERROR \<times> byte list) option" where
  "pkcs1_verify_loop pbHash pHashOIDs nOIDCount pbPKCS1Format i st =
    (if unat i < nOIDCount
     then
       let r = SymCryptRsaPkcs1CheckSignaturePadding pbHash
                 (pbOID (pHashOIDs ! unat i)) (cbOID (pHashOIDs ! unat i))
                 pbPKCS1Format 0 (snd st)
       in if fst r = SYMCRYPT_NO_ERROR then Some r
          else pkcs1_verify_loop pbHash pHashOIDs nOIDCount pbPKCS1Format (i + 1) r
     else Some st)"

definition SymCryptRsaPkcs1VerifySignaturePadding ::
  "byte list \<Rightarrow> SYMCRYPT_OID list option \<Rightarrow> nat \<Rightarrow> byte list \<Rightarrow> 32 word \<Rightarrow> byte list
     \<Rightarrow> (SYMCRYPT_ERROR \<times> byte list) option" where
  "SymCryptRsaPkcs1VerifySignaturePadding pbHash pHashOIDs nOIDCount pbPKCS1Format flags pbScratch =
    (if flags AND NOT SYMCRYPT_FLAG_RSA_PKCS1_OPTIONAL_HASH_OID \<noteq> 0
     then Some (SYMCRYPT_INVALID_ARGUMENT, pbScratch)
     else
       case (case pHashOIDs of
               None \<Rightarrow> Some (SYMCRYPT_NO_ERROR, pbScratch)
             | Some oids \<Rightarrow>
                 pkcs1_verify_loop pbHash oids nOIDCount pbPKCS1Format 0
                   (SYMCRYPT_NO_ERROR, pbScratch)) of
         None \<Rightarrow> None
       | Some (scError, s) \<Rightarrow>
           if pHashOIDs = None \<or>
              (scError \<noteq> SYMCRYPT_NO_ERROR \<and>
               flags AND SYMCRYPT_FLAG_RSA_PKCS1_OPTIONAL_HASH_OID \<noteq> 0)
           then Some (SymCryptRsaPkcs1CheckSignaturePadding pbHash None 0 pbPKCS1Format
                        SYMCRYPT_FLAG_RSA_PKCS1_NO_ASN1 s)
           else Some (scError, s))"

section \<open>MGF1 mask generation\<close>

text \<open>
  \<open>pbCount = (BYTE*)&i\<close>: the memory image of the \<open>UINT32\<close> counter. The source
  reads it as on a little-endian host (the byte at \<open>pbCount[0]\<close> is the low byte).
\<close>

definition UINT32_bytes :: "32 word \<Rightarrow> byte list" where
  "UINT32_bytes i = map (\<lambda>j. ucast (drop_bit (8 * j) i)) [0..<4]"

text \<open>
  The size of the local digest buffer \<open>rgbHash\<close>; the constant is defined in the
  library header (64 bytes, the largest digest supported).
\<close>

definition SYMCRYPT_HASH_MAX_RESULT_SIZE :: nat where
  "SYMCRYPT_HASH_MAX_RESULT_SIZE = 64"

text \<open>
  The loop of \<open>SymCryptRsaPaddingMaskGeneration\<close>. \<open>pbMaskIndex\<close> is held as an offset
  into \<open>pbDst\<close>.
\<close>

partial_function (option) mgf_loop ::
  "SYMCRYPT_HASH \<Rightarrow> byte list \<Rightarrow> nat \<Rightarrow> bool \<Rightarrow> 32 word \<Rightarrow> byte list \<Rightarrow> nat \<Rightarrow> byte list \<Rightarrow> nat
     \<Rightarrow> byte list option" where
  "mgf_loop hashAlgorithm pbSrc cIterations fAvoidDWORDReverse i rgbCount cbMaskRemaining pbDst pbMaskIndex =
    (if unat i < cIterations
     then
       let cbHashAlg = SymCryptHashResultSize hashAlgorithm;
           st0 = SymCryptHashInit;
           st1 = SymCryptHashAppend st0 pbSrc;
           pbCount = UINT32_bytes i;
           rgbCount1 = (if fAvoidDWORDReverse
                        then rgbCount[3 := pbCount ! 0]
                        else fold (\<lambda>j rc. rc[j := pbCount ! (4 - j - 1)]) [0..<4] rgbCount);
           st2 = SymCryptHashAppend st1 rgbCount1
       in
       if cbMaskRemaining \<ge> cbHashAlg
       then mgf_loop hashAlgorithm pbSrc cIterations fAvoidDWORDReverse (i + 1) rgbCount1
              (cbMaskRemaining - cbHashAlg)
              (SymCryptHashResult hashAlgorithm st2 pbDst pbMaskIndex cbHashAlg)
              (pbMaskIndex + cbHashAlg)
       else
         let rgbHash = SymCryptHashResult hashAlgorithm st2
                         (replicate SYMCRYPT_HASH_MAX_RESULT_SIZE 0) 0 cbHashAlg
         in Some (memcpy pbDst pbMaskIndex rgbHash cbMaskRemaining)
     else Some pbDst)"

text \<open>
  \<open>SymCryptRsaPaddingMaskGeneration\<close>: the destination buffer is given with its
  contents before the call (\<open>cbDst\<close> is its length); the result is the buffer after
  the call. With a digest length of zero the source divides by zero: the call does not
  return.
\<close>

definition SymCryptRsaPaddingMaskGeneration ::
  "SYMCRYPT_HASH \<Rightarrow> byte list \<Rightarrow> byte list \<Rightarrow> byte list option" where
  "SymCryptRsaPaddingMaskGeneration hashAlgorithm pbSrc pbDst =
    (let cbDst = length pbDst;
         cbHashAlg = SymCryptHashResultSize hashAlgorithm
     in
     if cbHashAlg = 0 then None
     else
       let cIterations = (cbDst + (cbHashAlg - 1)) div cbHashAlg;
           fAvoidDWORDReverse = (cIterations < 256)
       in mgf_loop hashAlgorithm pbSrc cIterations fAvoidDWORDReverse 0 (replicate 4 0)
            cbDst pbDst 0)"

section \<open>PKCS\#1 v1.5 encryption padding\<close>

text \<open>
  \<open>while (pbPKCS1Format[2 + i] == 0x00)\<close>: one byte of the padding string is drawn
  again until it is not zero, or the random source fails. The loop runs forever on a
  source that keeps delivering zero.
\<close>

partial_function (option) pkcs1_redraw ::
  "random_source \<Rightarrow> rng_state \<Rightarrow> byte \<Rightarrow> (SYMCRYPT_ERROR \<times> byte \<times> rng_state) option" where
  "pkcs1_redraw R s b =
    (if b = 0x00
     then
       (case SymCryptCallbackRandom R s 1 of
          (scError, bs, s') \<Rightarrow>
            if scError \<noteq> SYMCRYPT_NO_ERROR then Some (scError, bs ! 0, s')
            else pkcs1_redraw R s' (bs ! 0))
     else Some (SYMCRYPT_NO_ERROR, b, s))"

text \<open>
  \<open>for (SIZE_T i = 0; i < cbTmp; i++)\<close> over the bytes of the padding string, which
  is left at the first failure of the random source.
\<close>

fun pkcs1_nonzero_ps ::
  "random_source \<Rightarrow> rng_state \<Rightarrow> byte list \<Rightarrow> (SYMCRYPT_ERROR \<times> byte list \<times> rng_state) option" where
  "pkcs1_nonzero_ps R s [] = Some (SYMCRYPT_NO_ERROR, [], s)"
| "pkcs1_nonzero_ps R s (b # bs) =
    (case pkcs1_redraw R s b of
       None \<Rightarrow> None
     | Some (scError, b', s') \<Rightarrow>
         if scError \<noteq> SYMCRYPT_NO_ERROR then Some (scError, b' # bs, s')
         else (case pkcs1_nonzero_ps R s' bs of
                 None \<Rightarrow> None
               | Some (scError2, bs', s'') \<Rightarrow> Some (scError2, b' # bs', s'')))"

text \<open>
  \<open>SymCryptRsaPkcs1ApplyEncryptionPadding\<close>: the result is the error code, the output
  buffer after the call and the state of the random source.
\<close>

definition SymCryptRsaPkcs1ApplyEncryptionPadding ::
  "random_source \<Rightarrow> rng_state \<Rightarrow> byte list \<Rightarrow> 32 word \<Rightarrow> byte list
     \<Rightarrow> (SYMCRYPT_ERROR \<times> byte list \<times> rng_state) option" where
  "SymCryptRsaPkcs1ApplyEncryptionPadding R s pbPlaintext flags pbPKCS1Format =
    (let cbPlaintext = length pbPlaintext;
         cbPKCS1Format = length pbPKCS1Format
     in
     if flags \<noteq> 0 \<or> cbPlaintext + 11 > cbPKCS1Format
     then Some (SYMCRYPT_INVALID_ARGUMENT, pbPKCS1Format, s)
     else
       let cbTmp = cbPKCS1Format - (cbPlaintext + 3);
           b0 = pbPKCS1Format[0 := 0x00];
           b1 = b0[1 := PKCS_BLOCKTYPE_2];
           (scError, bs, s1) = SymCryptCallbackRandom R s cbTmp;
           b2 = memcpy b1 2 bs cbTmp
       in
       if scError \<noteq> SYMCRYPT_NO_ERROR then Some (scError, b2, s1)
       else
         (case pkcs1_nonzero_ps R s1 (region b2 2 cbTmp) of
            None \<Rightarrow> None
          | Some (scError2, ps, s2) \<Rightarrow>
              let b3 = memcpy b2 2 ps cbTmp in
              if scError2 \<noteq> SYMCRYPT_NO_ERROR then Some (scError2, b3, s2)
              else
                let b4 = b3[2 + cbTmp := 0x00];
                    b5 = memcpy b4 (3 + cbTmp) pbPlaintext cbPlaintext
                in Some (SYMCRYPT_NO_ERROR, b5, s2)))"

text \<open>
  \<open>for (i = 2; i < cbPKCS1Format; i++)\<close> with a \<open>UINT32 i\<close>, left at the first zero
  byte.
\<close>

partial_function (option) pkcs1_scan :: "byte list \<Rightarrow> 32 word \<Rightarrow> 32 word option" where
  "pkcs1_scan pbPKCS1Format i =
    (if unat i < length pbPKCS1Format
     then (if pbPKCS1Format ! unat i = 0x00 then Some i
           else pkcs1_scan pbPKCS1Format (i + 1))
     else Some i)"

text \<open>
  \<open>SymCryptRsaPkcs1RemoveEncryptionPadding\<close>: \<open>pbPlaintext\<close> is \<open>None\<close> for a \<open>NULL\<close>
  pointer and the output buffer otherwise (\<open>cbPlaintext\<close> is its length). The result
  is the error code, the value stored to \<open>*pcbPlaintext\<close> (\<open>None\<close> when nothing is
  stored) and the output buffer after the call.
\<close>

definition SymCryptRsaPkcs1RemoveEncryptionPadding ::
  "byte list \<Rightarrow> 32 word \<Rightarrow> byte list option
     \<Rightarrow> (SYMCRYPT_ERROR \<times> nat option \<times> byte list option) option" where
  "SymCryptRsaPkcs1RemoveEncryptionPadding pbPKCS1Format flags pbPlaintext =
    (let cbPKCS1Format = length pbPKCS1Format in
     if flags \<noteq> 0 \<or> cbPKCS1Format < 2
     then Some (SYMCRYPT_INVALID_ARGUMENT, None, pbPlaintext)
     else
       (case pkcs1_scan pbPKCS1Format 2 of
          None \<Rightarrow> None
        | Some i \<Rightarrow>
            let bValidPadding =
                  (pbPKCS1Format ! 0 = 0x00 \<and> pbPKCS1Format ! 1 = PKCS_BLOCKTYPE_2 \<and>
                   unat i < cbPKCS1Format)
            in
            if \<not> bValidPadding then Some (SYMCRYPT_INVALID_ARGUMENT, None, pbPlaintext)
            else
              let i1 = i + 1;
                  n = cbPKCS1Format - unat i1
              in
              (case pbPlaintext of
                 None \<Rightarrow> Some (SYMCRYPT_NO_ERROR, Some n, None)
               | Some buf \<Rightarrow>
                   if length buf < n then Some (SYMCRYPT_BUFFER_TOO_SMALL, Some n, Some buf)
                   else Some (SYMCRYPT_NO_ERROR, Some n,
                              Some (memcpy buf 0 (drop (unat i1) pbPKCS1Format) n)))))"

section \<open>OAEP encryption padding\<close>

text \<open>
  \<open>for (UINT32 i = 0; i < cb; i++) dst[doff + i] = a[aoff + i] ^ b[i]\<close>: the loop that
  combines a buffer with a mask.
\<close>

partial_function (option) xor_loop ::
  "nat \<Rightarrow> byte list \<Rightarrow> nat \<Rightarrow> byte list \<Rightarrow> nat \<Rightarrow> 32 word \<Rightarrow> byte list \<Rightarrow> byte list option" where
  "xor_loop cb a aoff b doff i dst =
    (if unat i < cb
     then xor_loop cb a aoff b doff (i + 1)
            (dst[doff + unat i := a ! (aoff + unat i) XOR b ! unat i])
     else Some dst)"

text \<open>
  \<open>SymCryptRsaOaepApplyEncryptionPadding\<close>. The scratch buffer is given with its
  contents before the call; the regions \<open>pbSeedInternal\<close>, \<open>pbSeedMask\<close>, \<open>pbDB\<close> and
  \<open>pbDBMask\<close> are cut from it at the offsets of the source. A scratch buffer smaller
  than the source asserts has no result. The result is the error code, the output
  buffer after the call and the state of the random source.
\<close>

definition SymCryptRsaOaepApplyEncryptionPadding ::
  "random_source \<Rightarrow> rng_state \<Rightarrow> byte list \<Rightarrow> SYMCRYPT_HASH \<Rightarrow> byte list \<Rightarrow> byte list option \<Rightarrow> nat
     \<Rightarrow> 32 word \<Rightarrow> byte list \<Rightarrow> byte list \<Rightarrow> (SYMCRYPT_ERROR \<times> byte list \<times> rng_state) option" where
  "SymCryptRsaOaepApplyEncryptionPadding R s pbPlaintext hashAlgorithm pbLabel pbSeed cbSeed
       flags pbOAEPFormat pbScratch =
    (let cbPlaintext = length pbPlaintext;
         cbOAEPFormat = length pbOAEPFormat;
         cbHashAlg = SymCryptHashResultSize hashAlgorithm;
         cbHashState = SymCryptHashStateSize hashAlgorithm
     in
     if flags \<noteq> 0 \<or>
        cbOAEPFormat < cbPlaintext + cbHashAlg * 2 + 2 \<or>
        (pbSeed \<noteq> None \<and> cbSeed > cbHashAlg) \<or>
        (pbSeed = None \<and> cbSeed \<noteq> 0)
     then Some (SYMCRYPT_INVALID_ARGUMENT, pbOAEPFormat, s)
     else
       let cbPS = cbOAEPFormat - (cbPlaintext + cbHashAlg * 2 + 2);
           cbDB = cbOAEPFormat - (cbHashAlg + 1)
       in
       if \<not> (length pbScratch \<ge> cbHashState + cbHashAlg * 2 + cbDB * 2) then None
       else
         let pbSeedInternal0 = region pbScratch cbHashState cbHashAlg;
             pbSeedMask0 = region pbScratch (cbHashState + cbHashAlg) cbHashAlg;
             pbDB0 = region pbScratch (cbHashState + cbHashAlg + cbHashAlg) cbDB;
             pbDBMask0 = region pbScratch (cbHashState + cbHashAlg + cbHashAlg + cbDB) cbDB;
             db1 = SymCryptHash hashAlgorithm pbLabel pbDB0 0 cbHashAlg;
             db2 = SymCryptWipe db1 cbHashAlg cbPS;
             db3 = db2[cbHashAlg + cbPS := 0x01];
             pbDB = memcpy db3 (cbHashAlg + cbPS + 1) pbPlaintext cbPlaintext;
             (scError, pbSeedInternal, s1) =
               (case pbSeed of
                  None \<Rightarrow>
                    (case SymCryptCallbackRandom R s cbHashAlg of
                       (e, bs, s') \<Rightarrow> (e, memcpy pbSeedInternal0 0 bs cbHashAlg, s'))
                | Some seed \<Rightarrow>
                    (SYMCRYPT_NO_ERROR,
                     memcpy (SymCryptWipe pbSeedInternal0 0 cbHashAlg) 0 seed cbSeed, s))
         in
         if scError \<noteq> SYMCRYPT_NO_ERROR then Some (scError, pbOAEPFormat, s1)
         else do {
           pbDBMask \<leftarrow> SymCryptRsaPaddingMaskGeneration hashAlgorithm pbSeedInternal pbDBMask0;
           let f0 = pbOAEPFormat[0 := 0x00];
           f1 \<leftarrow> xor_loop cbDB pbDB 0 pbDBMask (cbHashAlg + 1) 0 f0;
           pbSeedMask \<leftarrow> SymCryptRsaPaddingMaskGeneration hashAlgorithm
                           (region f1 (cbHashAlg + 1) cbDB) pbSeedMask0;
           f2 \<leftarrow> xor_loop cbHashAlg pbSeedInternal 0 pbSeedMask 1 0 f1;
           Some (SYMCRYPT_NO_ERROR, f2, s1)
         })"

text \<open>
  \<open>for (UINT32 i = 0; i < cbHashAlg; i++) if (pbLabelHash[i] != pbDB[i])\<close>: \<open>False\<close>
  is the exit to \<open>SYMCRYPT_INVALID_ARGUMENT\<close>.
\<close>

partial_function (option) oaep_label_loop ::
  "nat \<Rightarrow> byte list \<Rightarrow> byte list \<Rightarrow> 32 word \<Rightarrow> bool option" where
  "oaep_label_loop cbHashAlg pbLabelHash pbDB i =
    (if unat i < cbHashAlg
     then (if pbLabelHash ! unat i \<noteq> pbDB ! unat i then Some False
           else oaep_label_loop cbHashAlg pbLabelHash pbDB (i + 1))
     else Some True)"

text \<open>
  \<open>for (cnt = cbHashAlg; cnt < cbDB; cnt++)\<close> with a \<open>SIZE_T cnt\<close>: the result is the
  error of the early exit, or the value of \<open>cnt\<close> after the loop.
\<close>

function oaep_ps_loop :: "byte list \<Rightarrow> nat \<Rightarrow> nat \<Rightarrow> SYMCRYPT_ERROR + nat" where
  "oaep_ps_loop pbDB cbDB cnt =
    (if cnt < cbDB
     then (if pbDB ! cnt = 0x01 then Inr (cnt + 1)
           else if pbDB ! cnt \<noteq> 0x00 then Inl SYMCRYPT_INVALID_ARGUMENT
           else oaep_ps_loop pbDB cbDB (cnt + 1))
     else Inr cnt)"
  by pat_completeness auto
termination
  by (relation "measure (\<lambda>(pbDB, cbDB, cnt). cbDB - cnt)") auto

text \<open>
  \<open>SymCryptRsaOaepRemoveEncryptionPadding\<close>. The regions of the scratch buffer are
  cut as in the source: \<open>pbLabelHash = pbDB + cbDB\<close>, so the bytes of the scratch
  buffer from \<open>pbDB\<close> on are the data block followed by the label hash, and a read of
  \<open>pbDB[i]\<close> with \<open>i \<ge> cbDB\<close> reads the label hash. \<open>*pcbPlaintext = cbDB - cnt\<close> is
  not guarded and wraps around. The result is the error code, the value stored to
  \<open>*pcbPlaintext\<close> (\<open>None\<close> when nothing is stored) and the output buffer after the
  call (\<open>None\<close> for a \<open>NULL\<close> pointer).
\<close>

definition SymCryptRsaOaepRemoveEncryptionPadding ::
  "byte list \<Rightarrow> SYMCRYPT_HASH \<Rightarrow> byte list \<Rightarrow> 32 word \<Rightarrow> byte list option \<Rightarrow> byte list
     \<Rightarrow> (SYMCRYPT_ERROR \<times> nat option \<times> byte list option) option" where
  "SymCryptRsaOaepRemoveEncryptionPadding pbOAEPFormat hashAlgorithm pbLabel flags
       pbPlaintext pbScratch =
    (let cbOAEPFormat = length pbOAEPFormat;
         cbHashAlg = SymCryptHashResultSize hashAlgorithm;
         cbHashState = SymCryptHashStateSize hashAlgorithm
     in
     if flags \<noteq> 0 then Some (SYMCRYPT_INVALID_ARGUMENT, None, pbPlaintext)
     else if cbOAEPFormat < cbHashAlg + 1 \<or> pbOAEPFormat ! 0 \<noteq> 0x00
     then Some (SYMCRYPT_INVALID_ARGUMENT, None, pbPlaintext)
     else
       let cbDB = cbOAEPFormat - (cbHashAlg + 1) in
       if \<not> (length pbScratch \<ge> cbHashState + cbHashAlg * 3 + cbDB * 2) then None
       else
         let pbSeedMask0 = region pbScratch cbHashState cbHashAlg;
             pbSeed0 = region pbScratch (cbHashState + cbHashAlg) cbHashAlg;
             pbDBMask0 = region pbScratch (cbHashState + cbHashAlg + cbHashAlg) cbDB;
             pbDB0 = region pbScratch (cbHashState + cbHashAlg + cbHashAlg + cbDB) cbDB;
             pbLabelHash0 =
               region pbScratch (cbHashState + cbHashAlg + cbHashAlg + cbDB + cbDB) cbHashAlg
         in do {
           pbSeedMask \<leftarrow> SymCryptRsaPaddingMaskGeneration hashAlgorithm
                           (region pbOAEPFormat (cbHashAlg + 1) cbDB) pbSeedMask0;
           pbSeed \<leftarrow> xor_loop cbHashAlg pbOAEPFormat 1 pbSeedMask 0 0 pbSeed0;
           pbDBMask \<leftarrow> SymCryptRsaPaddingMaskGeneration hashAlgorithm pbSeed pbDBMask0;
           pbDB \<leftarrow> xor_loop cbDB pbOAEPFormat (cbHashAlg + 1) pbDBMask 0 0 pbDB0;
           let pbLabelHash = SymCryptHash hashAlgorithm pbLabel pbLabelHash0 0 cbHashAlg;
           let fromDB = pbDB @ pbLabelHash;
           labelOk \<leftarrow> oaep_label_loop cbHashAlg pbLabelHash fromDB 0;
           if \<not> labelOk then Some (SYMCRYPT_INVALID_ARGUMENT, None, pbPlaintext)
           else
             (case oaep_ps_loop fromDB cbDB cbHashAlg of
                Inl scError \<Rightarrow> Some (scError, None, pbPlaintext)
              | Inr cnt \<Rightarrow>
                  let n = size_sub cbDB cnt in
                  (case pbPlaintext of
                     None \<Rightarrow> Some (SYMCRYPT_NO_ERROR, Some n, None)
                   | Some buf \<Rightarrow>
                       if length buf < n
                       then Some (SYMCRYPT_BUFFER_TOO_SMALL, Some n, Some buf)
                       else Some (SYMCRYPT_NO_ERROR, Some n,
                                  Some (memcpy buf 0 (drop cnt fromDB) n))))
         })"

section \<open>PSS signature padding\<close>

text \<open>
  \<open>for (UINT32 i = 0; i < cbDB; i++) pbDBMask[i] = pbPSSFormat[i] ^ pbDBMask[i]\<close>: the
  loop of the verification, which works in place.
\<close>

partial_function (option) xor_loop_inplace ::
  "nat \<Rightarrow> byte list \<Rightarrow> 32 word \<Rightarrow> byte list \<Rightarrow> byte list option" where
  "xor_loop_inplace cb a i dst =
    (if unat i < cb
     then xor_loop_inplace cb a (i + 1) (dst[unat i := a ! unat i XOR dst ! unat i])
     else Some dst)"

text \<open>
  \<open>for (UINT32 i = 0; i < (cbDB - cbSalt - 1); i++) if (pbDBMask[i] != 0x00)\<close>:
  \<open>False\<close> is the exit to \<open>SYMCRYPT_INVALID_ARGUMENT\<close>.
\<close>

partial_function (option) pss_padding2_loop :: "nat \<Rightarrow> byte list \<Rightarrow> 32 word \<Rightarrow> bool option" where
  "pss_padding2_loop cb pbDBMask i =
    (if unat i < cb
     then (if pbDBMask ! unat i \<noteq> 0x00 then Some False
           else pss_padding2_loop cb pbDBMask (i + 1))
     else Some True)"

text \<open>
  \<open>SymCryptRsaPssApplySignaturePadding\<close>. \<open>pbPSSFormat\<close> is \<open>None\<close> for a \<open>NULL\<close>
  pointer and the output buffer otherwise (\<open>cbPSSFormat\<close> is its length); \<open>pbSalt\<close> is
  \<open>None\<close> for a \<open>NULL\<close> pointer. The step \<open>pbPSSFormat++; cbPSSFormat--\<close> is the offset
  \<open>off\<close> into the output buffer. \<open>dwZeroBits\<close> is computed without a guard and wraps
  around; the shift of the source is undefined in C for a count of 32 or more, where
  the term below is 0. The result is the error code, the output buffer after the call
  and the state of the random source.
\<close>

definition SymCryptRsaPssApplySignaturePadding ::
  "random_source \<Rightarrow> rng_state \<Rightarrow> byte list \<Rightarrow> SYMCRYPT_HASH \<Rightarrow> byte list option \<Rightarrow> nat \<Rightarrow> 32 word
     \<Rightarrow> 32 word \<Rightarrow> byte list option \<Rightarrow> byte list
     \<Rightarrow> (SYMCRYPT_ERROR \<times> byte list option \<times> rng_state) option" where
  "SymCryptRsaPssApplySignaturePadding R s pbHash hashAlgorithm pbSalt cbSalt nBitsOfModulus
       flags pbPSSFormat pbScratch =
    (let cbHash = length pbHash;
         cbHashAlg = SymCryptHashResultSize hashAlgorithm;
         cbHashState = SymCryptHashStateSize hashAlgorithm
     in
     case pbPSSFormat of
       None \<Rightarrow> Some (SYMCRYPT_INVALID_ARGUMENT, None, s)
     | Some fmt0 \<Rightarrow>
         if length fmt0 = 0 then Some (SYMCRYPT_INVALID_ARGUMENT, Some fmt0, s)
         else
           let adjust = (unat nBitsOfModulus mod 8 = 1);
               fmt1 = (if adjust then fmt0[0 := 0] else fmt0);
               off = (if adjust then 1 else 0);
               cbPSSFormat = length fmt0 - off
           in
           if flags \<noteq> 0 \<or> cbPSSFormat < cbHashAlg + cbSalt + 2
           then Some (SYMCRYPT_INVALID_ARGUMENT, Some fmt1, s)
           else
             let cbDB = cbPSSFormat - (cbHashAlg + 1);
                 cbPadding2 = cbDB - cbSalt - 1;
                 cbMPrime = 8 + cbHash + cbSalt
             in
             if \<not> (length pbScratch \<ge> cbHashState + cbMPrime + cbDB * 2) then None
             else
               let pbMPrime0 = region pbScratch cbHashState cbMPrime;
                   pbDB0 = region pbScratch (cbHashState + cbMPrime) cbDB;
                   pbDBMask0 = region pbScratch (cbHashState + cbMPrime + cbDB) cbDB;
                   m1 = SymCryptWipe pbMPrime0 0 8;
                   m2 = memcpy m1 8 pbHash cbHash;
                   (scError, pbMPrime, s1) =
                     (case pbSalt of
                        None \<Rightarrow>
                          (case SymCryptCallbackRandom R s cbSalt of
                             (e, bs, s') \<Rightarrow> (e, memcpy m2 (8 + cbHash) bs cbSalt, s'))
                      | Some salt \<Rightarrow>
                          (SYMCRYPT_NO_ERROR, memcpy m2 (8 + cbHash) salt cbSalt, s))
               in
               if scError \<noteq> SYMCRYPT_NO_ERROR then Some (scError, Some fmt1, s1)
               else
                 let fmt2 = SymCryptHash hashAlgorithm pbMPrime fmt1 (off + cbDB) cbHashAlg;
                     db1 = SymCryptWipe pbDB0 0 cbPadding2;
                     db2 = db1[cbPadding2 := 0x01];
                     pbDB = memcpy db2 (cbPadding2 + 1) (drop (8 + cbHash) pbMPrime) cbSalt
                 in do {
                   pbDBMask \<leftarrow> SymCryptRsaPaddingMaskGeneration hashAlgorithm
                                 (region fmt2 (off + cbDB) cbHashAlg) pbDBMask0;
                   fmt3 \<leftarrow> xor_loop cbDB pbDB 0 pbDBMask off 0 fmt2;
                   let dwZeroBits = size_sub (8 * cbPSSFormat + 1) (unat nBitsOfModulus);
                   let fmt4 = fmt3[off := fmt3 ! off AND drop_bit dwZeroBits (0xff :: byte)];
                   let fmt5 = fmt4[off + (cbPSSFormat - 1) := 0xbc];
                   Some (SYMCRYPT_NO_ERROR, Some fmt5, s1)
                 })"

text \<open>
  \<open>SymCryptRsaPssVerifySignaturePadding\<close>. After \<open>pbPSSFormat++; cbPSSFormat--\<close> the
  block is the list without its first byte. The comparison with
  \<open>cbHashAlg + cbSalt + 2\<close> is on \<open>SIZE_T\<close> values (\<open>cbSalt\<close> is a number that the caller
  passes, not the size of a buffer), and the differences that follow it are written with
  their wrap-around.
\<close>

definition SymCryptRsaPssVerifySignaturePadding ::
  "byte list \<Rightarrow> SYMCRYPT_HASH \<Rightarrow> nat \<Rightarrow> byte list option \<Rightarrow> 32 word \<Rightarrow> 32 word \<Rightarrow> byte list
     \<Rightarrow> SYMCRYPT_ERROR option" where
  "SymCryptRsaPssVerifySignaturePadding pbHash hashAlgorithm cbSalt pbPSSFormat nBitsOfModulus
       flags pbScratch =
    (let cbHash = length pbHash;
         cbHashAlg = SymCryptHashResultSize hashAlgorithm;
         cbHashState = SymCryptHashStateSize hashAlgorithm
     in
     case pbPSSFormat of
       None \<Rightarrow> Some SYMCRYPT_INVALID_ARGUMENT
     | Some fmt0 \<Rightarrow>
         if flags \<noteq> 0 \<or> length fmt0 = 0 then Some SYMCRYPT_INVALID_ARGUMENT
         else if unat nBitsOfModulus mod 8 = 1 \<and> fmt0 ! 0 \<noteq> 0
         then Some SYMCRYPT_INVALID_ARGUMENT
         else
           let fmt = (if unat nBitsOfModulus mod 8 = 1 then drop 1 fmt0 else fmt0);
               cbPSSFormat = length fmt;
               dwZeroBits = size_sub (8 * cbPSSFormat + 1) (unat nBitsOfModulus)
           in
           if fmt ! 0 AND push_bit (size_sub 8 dwZeroBits) (0xff :: byte) \<noteq> 0 \<or>
              fmt ! (cbPSSFormat - 1) \<noteq> 0xbc \<or>
              cbPSSFormat < (cbHashAlg + cbSalt + 2) mod 2 ^ 64
           then Some SYMCRYPT_INVALID_ARGUMENT
           else
             let cbDB = size_sub cbPSSFormat (cbHashAlg + 1);
                 cbMPrime = (8 + cbHash + cbSalt) mod 2 ^ 64
             in
             if \<not> (length pbScratch \<ge> cbHashState + cbDB + cbMPrime + cbHashAlg) then None
             else
               let pbDBMask0 = region pbScratch cbHashState cbDB;
                   pbMPrime0 = region pbScratch (cbHashState + cbDB) cbMPrime;
                   pbMPrimeHash0 = region pbScratch (cbHashState + cbDB + cbMPrime) cbHashAlg;
                   pbHashOfMPrimeIndex = size_sub cbPSSFormat (cbHashAlg + 1)
               in do {
                 m \<leftarrow> SymCryptRsaPaddingMaskGeneration hashAlgorithm
                        (region fmt pbHashOfMPrimeIndex cbHashAlg) pbDBMask0;
                 d0 \<leftarrow> xor_loop_inplace cbDB fmt 0 m;
                 let pbDBMask = d0[0 := d0 ! 0 AND drop_bit dwZeroBits (0xff :: byte)];
                 zeros \<leftarrow> pss_padding2_loop (size_sub (size_sub cbDB cbSalt) 1) pbDBMask 0;
                 if \<not> zeros then Some SYMCRYPT_INVALID_ARGUMENT
                 else if pbDBMask ! (size_sub (size_sub cbDB cbSalt) 1) \<noteq> 0x01
                 then Some SYMCRYPT_INVALID_ARGUMENT
                 else
                   let m1 = SymCryptWipe pbMPrime0 0 8;
                       m2 = memcpy m1 8 pbHash cbHash;
                       pbMPrime = memcpy m2 (8 + cbHash)
                                    (drop (size_sub cbDB cbSalt) pbDBMask) cbSalt;
                       pbMPrimeHash = SymCryptHash hashAlgorithm pbMPrime pbMPrimeHash0 0 cbHashAlg
                   in
                   if \<not> SymCryptEqual (drop cbDB fmt) pbMPrimeHash cbHashAlg
                   then Some SYMCRYPT_INVALID_ARGUMENT
                   else Some SYMCRYPT_NO_ERROR
               })"

section \<open>Reference definitions\<close>

text \<open>
  The encoding \<open>T\<close> that the signature padding places after the \<open>0x00\<close> separator,
  read off the stores of \<open>SymCryptRsaPkcs1ApplySignaturePadding\<close>.
\<close>

definition pkcs1_sig_T :: "byte list \<Rightarrow> byte list option \<Rightarrow> nat \<Rightarrow> 32 word \<Rightarrow> byte list" where
  "pkcs1_sig_T h oid n f =
     (if f AND SYMCRYPT_FLAG_RSA_PKCS1_NO_ASN1 = 0
      then (if oid \<noteq> None \<and> 0 < n
            then [0x30, of_nat (6 + n + length h) - 2, 0x30, of_nat n] @
                 map (\<lambda>i. the oid ! i) [0..<n] @ [0x04, of_nat (length h)] @ h
            else [0x04, of_nat (length h)] @ h)
      else h)"

text \<open>
  The mask that the loop of \<open>SymCryptRsaPaddingMaskGeneration\<close> writes: the counter of
  the source is a \<open>UINT32\<close>, its four bytes are hashed most significant byte first, and
  \<open>cbHashAlg\<close> bytes of every digest are copied.
\<close>

definition be32 :: "32 word \<Rightarrow> byte list" where
  "be32 i = [ucast (drop_bit 24 i), ucast (drop_bit 16 i), ucast (drop_bit 8 i), ucast i]"

definition mgf_block :: "SYMCRYPT_HASH \<Rightarrow> byte list \<Rightarrow> 32 word \<Rightarrow> byte list" where
  "mgf_block H src i = map (\<lambda>j. digest H (src @ be32 i) ! j) [0..<resultSize H]"

definition mgf_blocks :: "SYMCRYPT_HASH \<Rightarrow> byte list \<Rightarrow> 32 word \<Rightarrow> nat \<Rightarrow> byte list" where
  "mgf_blocks H src i n = concat (map (\<lambda>j. mgf_block H src (i + of_nat j)) [0..<n])"

definition mgf1_mask :: "SYMCRYPT_HASH \<Rightarrow> byte list \<Rightarrow> nat \<Rightarrow> byte list" where
  "mgf1_mask H src n = take n (mgf_blocks H src 0 (n div resultSize H + 1))"

text \<open>
  The canonical MGF1, in the words of the specification: for each counter
  \<open>i = 0, 1, \<dots>, \<lceil>maskLen / hLen\<rceil> - 1\<close>, compute \<open>H (seed || I2OSP (i, 4))\<close> and
  concatenate, truncating the final block. \<open>I2OSP (x, xLen)\<close> is the big-endian
  encoding of \<open>x\<close> in \<open>xLen\<close> bytes, which exists for \<open>x < 256 ^ xLen\<close> only.
\<close>

definition I2OSP :: "nat \<Rightarrow> nat \<Rightarrow> byte list option" where
  "I2OSP x xLen =
     (if x \<ge> 256 ^ xLen then None
      else Some (map (\<lambda>j. of_nat (x div 256 ^ (xLen - 1 - j))) [0..<xLen]))"

definition MGF1_spec :: "SYMCRYPT_HASH \<Rightarrow> byte list \<Rightarrow> nat \<Rightarrow> byte list option" where
  "MGF1_spec H seed maskLen =
     (let hLen = resultSize H;
          count = (maskLen + hLen - 1) div hLen
      in if list_all (\<lambda>i. I2OSP i 4 \<noteq> None) [0..<count]
         then Some (take maskLen (concat (map (\<lambda>i. digest H (seed @ the (I2OSP i 4))) [0..<count])))
         else None)"

text \<open>
  A hash descriptor for the concrete instances below: a two-byte checksum, which stands
  in for a digest of the library.
\<close>

definition test_hash :: SYMCRYPT_HASH where
  "test_hash = \<lparr>resultSize = 2, stateSize = 4,
                 digest = (\<lambda>x. [fold (\<lambda>b a. 3 * a + b) x 7, fold (\<lambda>b a. a XOR b) x 0x5a])\<rparr>"

text \<open>
  The OAEP block of the diagram in the source, for a seed and a data block:
  \<open>EM = 0x00 || maskedSeed || maskedDB\<close> with \<open>maskedDB = DB xor MGF (seed)\<close> and
  \<open>maskedSeed = seed xor MGF (maskedDB)\<close>.
\<close>

definition xor_bytes :: "byte list \<Rightarrow> byte list \<Rightarrow> byte list" where
  "xor_bytes a b = map2 (\<lambda>x y. x XOR y) a b"

definition oaep_block :: "SYMCRYPT_HASH \<Rightarrow> byte list \<Rightarrow> byte list \<Rightarrow> byte list" where
  "oaep_block H seed DB =
     (let maskedDB = xor_bytes DB (mgf1_mask H seed (length DB));
          maskedSeed = xor_bytes seed (mgf1_mask H maskedDB (resultSize H))
      in 0x00 # maskedSeed @ maskedDB)"

text \<open>
  A random source for the concrete instances below: it never fails, and the byte it
  delivers at position \<open>n\<close> is \<open>85 n mod 256\<close> (the first one is zero).
\<close>

definition test_random :: random_source where
  "test_random = \<lparr>rnd_bytes = (\<lambda>n. of_nat (n * 85)), rnd_result = (\<lambda>n. SYMCRYPT_NO_ERROR)\<rparr>"

text \<open>
  The PSS block of the diagram in the source, without the leading byte of the case
  \<open>nBitsOfModulus mod 8 = 1\<close>: \<open>EM = maskedDB || H (M') || 0xbc\<close> with
  \<open>M' = 0x00^8 || mHash || salt\<close>, \<open>DB = 0x00 ... 0x00 || 0x01 || salt\<close>,
  \<open>maskedDB = DB xor MGF (H (M'))\<close>, and the first byte masked by \<open>0xff >> z\<close>
  for \<open>z\<close> zero bits.
\<close>

definition pss_encode :: "SYMCRYPT_HASH \<Rightarrow> byte list \<Rightarrow> byte list \<Rightarrow> nat \<Rightarrow> nat \<Rightarrow> byte list" where
  "pss_encode H mHash salt emLen z =
     (let cbDB = emLen - (resultSize H + 1);
          h = map (\<lambda>j. digest H (replicate 8 0x00 @ mHash @ salt) ! j) [0..<resultSize H];
          DB = replicate (cbDB - length salt - 1) 0x00 @ [0x01] @ salt;
          maskedDB = xor_bytes DB (mgf1_mask H h cbDB)
      in maskedDB[0 := maskedDB ! 0 AND drop_bit z 0xff] @ h @ [0xbc])"

text \<open>
  A random source that never fails and delivers the same byte at every position.
\<close>

definition const_random :: "byte \<Rightarrow> random_source" where
  "const_random b = \<lparr>rnd_bytes = (\<lambda>n. b), rnd_result = (\<lambda>n. SYMCRYPT_NO_ERROR)\<rparr>"

section \<open>PKCS\#1 v1.5 signature padding: the form of the output\<close>

lemma split_at: "m \<le> length xs \<Longrightarrow> \<exists>ys zs. xs = ys @ zs \<and> length ys = m \<and> length zs = length xs - m"
  by (rule exI[of _ "take m xs"], rule exI[of _ "drop m xs"]) simp

lemma split_hd: "0 < length xs \<Longrightarrow> \<exists>y ys. xs = y # ys \<and> length ys = length xs - 1"
  by (cases xs) simp_all

lemma sig_block_shape:
  assumes "length b = 3 + p + e"
  shows "\<exists>a0 a1 P z R. b = a0 # a1 # P @ z # R \<and> length P = p \<and> length R = e"
proof -
  obtain a0 b1 where b1: "b = a0 # b1" "length b1 = 2 + p + e"
    using split_hd[of b] assms by auto
  obtain a1 b2 where b2: "b1 = a1 # b2" "length b2 = 1 + p + e"
    using split_hd[of b1] b1 by auto
  obtain P b3 where b3: "b2 = P @ b3" "length P = p" "length b3 = 1 + e"
    using split_at[of p b2] b2 by auto
  obtain z R where b4: "b3 = z # R" "length R = e"
    using split_hd[of b3] b3 by auto
  show ?thesis using b1 b2 b3 b4 by auto
qed

lemma sig_apply_oid:
  assumes ins: "flags AND SYMCRYPT_FLAG_RSA_PKCS1_NO_ASN1 = 0" and n: "0 < n"
    and ok: "flags AND NOT SYMCRYPT_FLAG_RSA_PKCS1_NO_ASN1 = 0" "6 + n + length h \<le> 0x80"
       "3 + 8 + (6 + n + length h) \<le> length b"
  shows "SymCryptRsaPkcs1ApplySignaturePadding h (Some oid) n flags b =
     (SYMCRYPT_NO_ERROR,
           [0x00, 0x01] @ replicate (length b - 3 - (6 + n + length h)) 0xff @ [0x00] @
           [0x30, of_nat (6 + n + length h) - 2, 0x30, of_nat n] @ map (\<lambda>i. oid ! i) [0..<n] @ [0x04, of_nat (length h)] @ h)"
proof -
  define p where "p = length b - 3 - (6 + n + length h)"
  have k: "length b = 3 + p + (6 + n + length h)" using ok by (simp add: p_def)
  obtain a0 a1 P z b4 where b: "b = a0 # a1 # P @ z # b4" and P: "length P = p"
    and b4: "length b4 = 6 + n + length h"
    using sig_block_shape[OF k] by blast
  obtain R b5 where b5: "b4 = R @ b5" "length R = 4" "length b5 = 2 + n + length h"
    using split_at[of 4 b4] b4 by auto
  obtain Od b6 where b6: "b5 = Od @ b6" "length Od = n" "length b6 = 2 + length h"
    using split_at[of n b5] b5 by auto
  obtain r4 r5 Hh where b7: "b6 = r4 # r5 # Hh" "length Hh = length h"
    using b6 by (cases b6; cases "tl b6") auto
  obtain r0 r1 r2 r3 where R: "R = [r0, r1, r2, r3]"
    using b5(2) by (auto simp: length_Suc_conv numeral_eq_Suc)
  have bb: "b = a0 # a1 # P @ z # r0 # r1 # r2 # r3 # Od @ r4 # r5 # Hh"
    by (simp add: b b5 b6 b7 R)
  have pe: "length b - 3 - (6 + n + length h) = p" by (simp add: p_def)
  show ?thesis
    unfolding pe
    using ins n ok k P b6(2) b7(2)
    apply (simp add: SymCryptRsaPkcs1ApplySignaturePadding_def Let_def pe)
    apply (simp add: bb memset_def memcpy_def list_update_append ASN1_SEQUENCE_BYTE_def
        ASN1_OCTET_STRING_BYTE_def take_Cons' drop_Cons' map_nth)
    done
qed

lemma sig_apply_no_oid:
  assumes ins: "flags AND SYMCRYPT_FLAG_RSA_PKCS1_NO_ASN1 = 0" 
    and ok: "flags AND NOT SYMCRYPT_FLAG_RSA_PKCS1_NO_ASN1 = 0" "2 + length h \<le> 0x80"
       "3 + 8 + (2 + length h) \<le> length b"
  shows "SymCryptRsaPkcs1ApplySignaturePadding h oid 0 flags b =
     (SYMCRYPT_NO_ERROR,
           [0x00, 0x01] @ replicate (length b - 3 - (2 + length h)) 0xff @ [0x00] @
           [0x04, of_nat (length h)] @ h)"
proof -
  define p where "p = length b - 3 - (2 + length h)"
  have k: "length b = 3 + p + (2 + length h)" using ok by (simp add: p_def)
  obtain a0 a1 P z b6 where b: "b = a0 # a1 # P @ z # b6" and P: "length P = p"
    and b6: "length b6 = 2 + length h"
    using sig_block_shape[OF k] by blast
  obtain r4 r5 Hh where b7: "b6 = r4 # r5 # Hh" "length Hh = length h"
    using b6 by (cases b6; cases "tl b6") auto
  have bb: "b = a0 # a1 # P @ z # r4 # r5 # Hh"
    by (simp add: b b7)
  have pe: "length b - 3 - (2 + length h) = p" by (simp add: p_def)
  show ?thesis
    unfolding pe
    using ins ok k P b7(2)
    apply (simp add: SymCryptRsaPkcs1ApplySignaturePadding_def Let_def pe)
    apply (simp add: bb memset_def memcpy_def list_update_append ASN1_SEQUENCE_BYTE_def
        ASN1_OCTET_STRING_BYTE_def take_Cons' drop_Cons' map_nth)
    done
qed

lemma sig_apply_no_asn1:
  assumes ins: "flags AND SYMCRYPT_FLAG_RSA_PKCS1_NO_ASN1 \<noteq> 0" 
    and ok: "flags AND NOT SYMCRYPT_FLAG_RSA_PKCS1_NO_ASN1 = 0" "length h \<le> 0x80"
       "3 + 8 + length h \<le> length b"
  shows "SymCryptRsaPkcs1ApplySignaturePadding h oid n flags b =
     (SYMCRYPT_NO_ERROR, [0x00, 0x01] @ replicate (length b - 3 - length h) 0xff @ [0x00] @ h)"
proof -
  define p where "p = length b - 3 - length h"
  have k: "length b = 3 + p + length h" using ok by (simp add: p_def)
  obtain a0 a1 P z Hh where b: "b = a0 # a1 # P @ z # Hh" and P: "length P = p"
    and Hh: "length Hh = length h"
    using sig_block_shape[OF k] by blast
  have pe: "length b - 3 - length h = p" by (simp add: p_def)
  show ?thesis
    unfolding pe
    using ins ok k P Hh
    apply (simp add: SymCryptRsaPkcs1ApplySignaturePadding_def Let_def pe)
    apply (simp add: b memset_def memcpy_def list_update_append take_Cons' drop_Cons' map_nth)
    done
qed

lemma sig_apply_form:
  "SymCryptRsaPkcs1ApplySignaturePadding h oid n f b =
    (let T = pkcs1_sig_T h oid n f in
     if f AND NOT SYMCRYPT_FLAG_RSA_PKCS1_NO_ASN1 \<noteq> 0 \<or>
        (f AND SYMCRYPT_FLAG_RSA_PKCS1_NO_ASN1 = 0 \<and> oid = None \<and> 0 < n) \<or>
        0x80 < length T \<or> length b < 3 + 8 + length T
     then (SYMCRYPT_INVALID_ARGUMENT, b)
     else (SYMCRYPT_NO_ERROR, [0x00, 0x01] @ replicate (length b - 3 - length T) 0xff @ [0x00] @ T))"
proof (cases "f AND NOT SYMCRYPT_FLAG_RSA_PKCS1_NO_ASN1 \<noteq> 0 \<or>
        (f AND SYMCRYPT_FLAG_RSA_PKCS1_NO_ASN1 = 0 \<and> oid = None \<and> 0 < n) \<or>
        0x80 < length (pkcs1_sig_T h oid n f) \<or> length b < 3 + 8 + length (pkcs1_sig_T h oid n f)")
  case True
  then show ?thesis
    by (auto simp: SymCryptRsaPkcs1ApplySignaturePadding_def Let_def pkcs1_sig_T_def)
next
  case ok: False
  show ?thesis
  proof (cases "f AND SYMCRYPT_FLAG_RSA_PKCS1_NO_ASN1 = 0")
    case ins: True
    show ?thesis
    proof (cases "oid \<noteq> None \<and> 0 < n")
      case True
      then obtain o' where o': "oid = Some o'" by auto
      show ?thesis
        using sig_apply_oid[of f n h b o'] ok ins True
        by (simp add: pkcs1_sig_T_def o' Let_def)
    next
      case False
      with ok ins have "n = 0" by auto
      then show ?thesis
        using sig_apply_no_oid[of f h b oid] ok ins False
        by (simp add: pkcs1_sig_T_def Let_def)
    qed
  next
    case False
    then show ?thesis
      using sig_apply_no_asn1[of f h b oid n] ok
      by (simp add: pkcs1_sig_T_def Let_def)
  qed
qed

lemma sig_apply_err:
  "fst (SymCryptRsaPkcs1ApplySignaturePadding h oid n f b) = SYMCRYPT_NO_ERROR \<or>
   SymCryptRsaPkcs1ApplySignaturePadding h oid n f b = (SYMCRYPT_INVALID_ARGUMENT, b)"
  by (simp add: sig_apply_form Let_def)

lemma sig_apply_length:
  "length (snd (SymCryptRsaPkcs1ApplySignaturePadding h oid n f b)) = length b"
  by (auto simp add: sig_apply_form Let_def)

lemma pkcs1_verify_null_oids:
  "flags AND NOT SYMCRYPT_FLAG_RSA_PKCS1_OPTIONAL_HASH_OID = 0 \<Longrightarrow>
   SymCryptRsaPkcs1VerifySignaturePadding h None n blk flags scr =
     Some (SymCryptRsaPkcs1CheckSignaturePadding h None 0 blk SYMCRYPT_FLAG_RSA_PKCS1_NO_ASN1 scr)"
  by (simp add: SymCryptRsaPkcs1VerifySignaturePadding_def)

section \<open>MGF1: the loop computes the mask\<close>

lemma UINT32_bytes_simps: "UINT32_bytes i = [ucast i, ucast (drop_bit 8 i), ucast (drop_bit 16 i), ucast (drop_bit 24 i)]"
  by (simp add: UINT32_bytes_def upt_rec numeral_eq_Suc)

lemma rev_count: "length rc = 4 \<Longrightarrow> fold (\<lambda>j rc. rc[j := UINT32_bytes i ! (4 - j - 1)]) [0..<4] rc = be32 i"
  apply (simp add: UINT32_bytes_simps be32_def)
  apply (cases rc; simp)
  subgoal for a rc1 apply (cases rc1; simp)
    subgoal for b rc2 apply (cases rc2; simp)
      subgoal for c rc3 apply (cases rc3; simp add: upt_rec numeral_eq_Suc)
        done done done done

lemma drop_small: "unat (i :: 32 word) < 256 \<Longrightarrow> 8 \<le> n \<Longrightarrow> drop_bit n i = 0"
proof -
  assume a: "unat i < 256" and n: "8 \<le> n"
  have "unat (drop_bit n i) = drop_bit n (unat i)" by (rule unat_drop_bit_eq)
  also have "\<dots> = unat i div 2 ^ n" by (rule drop_bit_eq_div)
  also have "\<dots> = 0" 
  proof -
    have "(2::nat) ^ 8 \<le> 2 ^ n" using n by (intro power_increasing) auto
    then have "unat i < 2 ^ n" using a by simp
    then show ?thesis by simp
  qed
  finally show ?thesis by (simp add: unat_eq_0)
qed

lemma low_count: "unat i < 256 \<Longrightarrow> be32 i = [0,0,0,ucast i]"
  by (simp add: be32_def drop_small)

lemma unat_succ32: "unat (i :: 32 word) < n \<Longrightarrow> n \<le> 2 ^ 32 - 1 \<Longrightarrow> unat (i + 1) = Suc (unat i)"
  using unat_add_lem[of i 1] by simp

lemma memcpy_length: "off + n \<le> length dst \<Longrightarrow> length (memcpy dst off src n) = length dst"
  by (simp add: memcpy_def)

lemma mgf_block_length: "length (mgf_block H src i) = resultSize H"
  by (simp add: mgf_block_def)

lemma mgf_blocks_Suc: "mgf_blocks H src i (Suc n) = mgf_block H src i @ mgf_blocks H src (i + 1) n"
proof -
  have "[0..<Suc n] = 0 # map Suc [0..<n]"
    by (simp add: upt_conv_Cons map_Suc_upt del: upt_Suc)
  then show ?thesis
    by (simp add: mgf_blocks_def comp_def add.assoc del: upt_Suc)
qed

lemma mgf_blocks_length: "length (mgf_blocks H src i n) = n * resultSize H"
proof (induction n arbitrary: i)
  case 0 show ?case by (simp add: mgf_blocks_def)
next
  case (Suc n) then show ?case by (simp add: mgf_blocks_Suc mgf_block_length)
qed

lemma mgf_count:
  assumes "length rc = 4" "fAvoid \<longrightarrow> cIter \<le> 256 \<and> take 3 rc = [0,0,0]" "unat i < cIter"
  shows "(if fAvoid then rc[3 := UINT32_bytes i ! 0]
                 else fold (\<lambda>j rc. rc[j := UINT32_bytes i ! (4 - j - 1)]) [0..<4] rc) = be32 i"
proof (cases fAvoid)
  case f: True
  then have "unat i < 256" "take 3 rc = [0,0,0]" using assms by auto
  moreover obtain a b c d where "rc = [a,b,c,d]" using assms(1)
    by (auto simp: length_Suc_conv numeral_eq_Suc)
  ultimately show ?thesis using f by (simp add: low_count UINT32_bytes_simps)
next
  case False
  then show ?thesis using rev_count[OF assms(1)] by simp
qed

lemma mgf_loop_correct:
  assumes h: "0 < resultSize H"
  shows "rem div resultSize H = q \<Longrightarrow> idx + rem \<le> length dst \<Longrightarrow> length rc = 4 \<Longrightarrow>
     (\<forall>j<q. unat (i + of_nat j) < cIter) \<Longrightarrow>
     (rem mod resultSize H \<noteq> 0 \<longrightarrow> unat (i + of_nat q) < cIter) \<Longrightarrow>
     (fAvoid \<longrightarrow> cIter \<le> 256 \<and> take 3 rc = [0,0,0]) \<Longrightarrow>
     mgf_loop H src cIter fAvoid i rc rem dst idx =
       Some (take idx dst @ take rem (mgf_blocks H src i (q + 1)) @ drop (idx + rem) dst)"
proof (induction q arbitrary: i rc rem dst idx)
  case 0
  then have rem: "rem < resultSize H" using h by (simp add: div_eq_0_iff)
  show ?case
  proof (cases "unat i < cIter")
    case True
    have rc1: "(if fAvoid then rc[3 := UINT32_bytes i ! 0]
                 else fold (\<lambda>j rc. rc[j := UINT32_bytes i ! (4 - j - 1)]) [0..<4] rc) = be32 i"
      using mgf_count[OF 0(3) 0(6) True] .
    have "map (\<lambda>j. memcpy (replicate SYMCRYPT_HASH_MAX_RESULT_SIZE 0) 0 (digest H (src @ be32 i)) (resultSize H) ! j) [0..<rem]
       = take rem (mgf_block H src i)"
      using rem by (auto simp: memcpy_def mgf_block_def nth_append take_map intro!: nth_equalityI)
    then show ?thesis
      using True rem 0(2)
      apply (subst mgf_loop.simps)
      apply (simp add: Let_def rc1 SymCryptHashResultSize_def SymCryptHashInit_def SymCryptHashAppend_def SymCryptHashResult_def)
      apply (simp add: memcpy_def[of dst] mgf_blocks_def mgf_block_length)
      done
  next
    case False
    then have "rem = 0" using 0 rem by (cases "rem = 0") auto
    then show ?thesis using False
      by (subst mgf_loop.simps) simp
  qed
next
  case (Suc q)
  then have rem: "resultSize H \<le> rem" using h 
    by (metis div_less not_less Zero_not_Suc)
  have g: "unat i < cIter" using Suc.prems(4)[rule_format, of 0] by simp
  have rc1: "(if fAvoid then rc[3 := UINT32_bytes i ! 0]
                 else fold (\<lambda>j rc. rc[j := UINT32_bytes i ! (4 - j - 1)]) [0..<4] rc) = be32 i"
    using mgf_count[OF Suc.prems(3) Suc.prems(6) g] .
  define dst1 where "dst1 = memcpy dst idx (digest H (src @ be32 i)) (resultSize H)"
  have dst1: "dst1 = take idx dst @ mgf_block H src i @ drop (idx + resultSize H) dst"
    by (simp add: dst1_def memcpy_def mgf_block_def)
  have len1: "length dst1 = length dst"
    using rem Suc.prems(2) by (simp add: dst1_def memcpy_length)
  have q1: "(rem - resultSize H) div resultSize H = q"
    using Suc.prems(1) rem h by (simp add: le_div_geq)
  have m1: "(rem - resultSize H) mod resultSize H = rem mod resultSize H"
    using rem by (simp add: le_mod_geq)
  have IH: "mgf_loop H src cIter fAvoid (i + 1) (be32 i) (rem - resultSize H) dst1 (idx + resultSize H)
      = Some (take (idx + resultSize H) dst1 @ take (rem - resultSize H) (mgf_blocks H src (i + 1) (q + 1)) @
          drop (idx + resultSize H + (rem - resultSize H)) dst1)"
  proof (rule Suc.IH[OF q1])
    show "idx + resultSize H + (rem - resultSize H) \<le> length dst1" using len1 rem Suc.prems(2) by simp
    show "length (be32 i) = 4" by (simp add: be32_def)
    show "\<forall>j<q. unat (i + 1 + word_of_nat j) < cIter"
    proof (intro allI impI)
      fix j assume "j < q"
      then have "Suc j < Suc q" by simp
      from Suc.prems(4)[rule_format, OF this]
      show "unat (i + 1 + word_of_nat j) < cIter" by (simp add: add.assoc)
    qed
    show "(rem - resultSize H) mod resultSize H \<noteq> 0 \<longrightarrow> unat (i + 1 + word_of_nat q) < cIter"
      using Suc.prems(5) m1 by (simp add: add.assoc)
    show "fAvoid \<longrightarrow> cIter \<le> 256 \<and> take 3 (be32 i) = [0, 0, 0]"
      using Suc.prems(6) g by (auto simp: low_count)
  qed
  have t1: "take (idx + resultSize H) dst1 = take idx dst @ mgf_block H src i"
    using Suc.prems(2) rem by (simp add: dst1 mgf_block_length)
  have t2: "drop (idx + rem) dst1 = drop (idx + rem) dst"
    using Suc.prems(2) rem by (simp add: dst1 mgf_block_length add.commute)
  have t3: "take rem (mgf_blocks H src i (Suc (Suc q))) = mgf_block H src i @ take (rem - resultSize H) (mgf_blocks H src (i + 1) (Suc q))"
    using rem by (simp add: mgf_blocks_Suc mgf_block_length)
  show ?case
    using g rem
    apply (subst mgf_loop.simps)
    apply (simp add: Let_def rc1 SymCryptHashResultSize_def SymCryptHashInit_def SymCryptHashAppend_def SymCryptHashResult_def
          dst1_def[symmetric])
    apply (simp add: IH t1 t2 t3)
    done
qed

lemma mgf_correct:
  assumes h: "0 < resultSize H"
  shows "SymCryptRsaPaddingMaskGeneration H src dst = Some (mgf1_mask H src (length dst))"
proof -
  define n where "n = length dst"
  define hl where "hl = resultSize H"
  define q where "q = n div hl"
  define cIter where "cIter = (n + (hl - 1)) div hl"
  have hl: "0 < hl" using h by (simp add: hl_def)
  have qc: "q \<le> cIter" unfolding q_def cIter_def by (rule div_le_mono) simp
  have qc2: "n mod hl \<noteq> 0 \<Longrightarrow> q < cIter"
  proof -
    assume m: "n mod hl \<noteq> 0"
    have "n = q * hl + n mod hl" by (simp add: q_def)
    moreover have "1 \<le> n mod hl" using m by simp
    ultimately have "(q + 1) * hl \<le> n + (hl - 1)" using hl by (simp add: algebra_simps)
    then have "q + 1 \<le> (n + (hl - 1)) div hl" using hl by (simp add: less_eq_div_iff_mult_less_eq)
    then show ?thesis by (simp add: cIter_def)
  qed
  have le: "\<And>j. unat (word_of_nat j :: 32 word) \<le> j" by (simp add: unat_of_nat)
  have "mgf_loop H src cIter (cIter < 256) 0 (replicate 4 0) n dst 0 =
       Some (take 0 dst @ take n (mgf_blocks H src 0 (q + 1)) @ drop (0 + n) dst)"
  proof (rule mgf_loop_correct[OF h])
    show "n div resultSize H = q" by (simp add: q_def hl_def)
    show "0 + n \<le> length dst" by (simp add: n_def)
    show "length (replicate 4 (0::byte)) = 4" by simp
    show "\<forall>j<q. unat (0 + word_of_nat j :: 32 word) < cIter"
      using qc le by (auto intro: le_less_trans less_le_trans)
    show "n mod resultSize H \<noteq> 0 \<longrightarrow> unat (0 + word_of_nat q :: 32 word) < cIter"
      using qc2 le[of q] by (auto simp: hl_def intro: le_less_trans)
    show "cIter < 256 \<longrightarrow> cIter \<le> 256 \<and> take 3 (replicate 4 (0::byte)) = [0, 0, 0]"
      by (simp add: numeral_eq_Suc)
  qed
  moreover have "(length dst + resultSize H - Suc 0) div resultSize H = cIter"
    using hl by (simp add: cIter_def n_def hl_def)
  ultimately show ?thesis
    using h
    by (simp add: SymCryptRsaPaddingMaskGeneration_def Let_def SymCryptHashResultSize_def mgf1_mask_def
        n_def[symmetric] hl_def[symmetric] q_def[symmetric])
qed

lemma mgf1_mask_length: "0 < resultSize H \<Longrightarrow> length (mgf1_mask H src n) = n"
proof -
  assume h: "0 < resultSize H"
  have "n < (n div resultSize H + 1) * resultSize H"
    using h by (metis Suc_eq_plus1 dividend_less_div_times mult.commute add.commute mult_Suc)
  then show ?thesis by (simp add: mgf1_mask_def mgf_blocks_length)
qed

lemma upt_0_4: "[0..<4] = [0, 1, 2, 3::nat]"
  by code_simp

lemma I2OSP_be32: "j < 2 ^ 32 \<Longrightarrow> I2OSP j 4 = Some (be32 (of_nat j))"
proof -
  assume j: "j < 2 ^ 32"
  have u: "unat (word_of_nat j :: 32 word) = j" using j by (simp add: unat_of_nat)
  have d: "\<And>n. (ucast (drop_bit n (word_of_nat j :: 32 word)) :: byte) = of_nat (j div 2 ^ n)"
  proof -
    fix n
    have "unat (drop_bit n (word_of_nat j :: 32 word)) = drop_bit n (unat (word_of_nat j :: 32 word))"
      by (rule unat_drop_bit_eq)
    also have "\<dots> = j div 2 ^ n" unfolding u by (rule drop_bit_eq_div)
    finally have "unat (drop_bit n (word_of_nat j :: 32 word)) = j div 2 ^ n" .
    then show "(ucast (drop_bit n (word_of_nat j :: 32 word)) :: byte) = of_nat (j div 2 ^ n)"
      by (metis of_nat_unat)
  qed
  have "(ucast (word_of_nat j :: 32 word) :: byte) = of_nat j"
    using d[of 0] by simp
  then show ?thesis
    using j d[of 24] d[of 16] d[of 8]
    by (simp add: I2OSP_def be32_def upt_0_4)
qed

lemma mgf_block_wf: "length (digest H (src @ be32 i)) = resultSize H \<Longrightarrow> mgf_block H src i = digest H (src @ be32 i)"
  unfolding mgf_block_def by (metis map_nth)

lemma concat_upt_prefix:
  "m \<le> n \<Longrightarrow> concat (map f [0..<n]) = concat (map f [0..<m]) @ concat (map f [m..<n])"
  by (metis concat_append map_append upt_add_eq_append le_add_diff_inverse le0 add_0)

lemma mgf_spec_eq:
  assumes h: "0 < resultSize H" and wf: "\<forall>x. length (digest H x) = resultSize H"
    and c: "(n + resultSize H - 1) div resultSize H \<le> 2 ^ 32"
  shows "MGF1_spec H seed n = Some (mgf1_mask H seed n)"
proof -
  define hl where "hl = resultSize H"
  define cnt where "cnt = (n + hl - 1) div hl"
  define f where "f = (\<lambda>j. digest H (seed @ be32 (word_of_nat j)))"
  have hl: "0 < hl" using h by (simp add: hl_def)
  have all: "list_all (\<lambda>i. I2OSP i 4 \<noteq> None) [0..<cnt]"
    using c by (auto simp: list_all_iff cnt_def hl_def I2OSP_be32)
  have m1: "map (\<lambda>i. digest H (seed @ the (I2OSP i 4))) [0..<cnt] = map f [0..<cnt]"
    using c by (auto simp: cnt_def hl_def I2OSP_be32 f_def)
  have m2: "mgf_blocks H seed 0 m = concat (map f [0..<m])" for m
    using wf by (simp add: mgf_blocks_def mgf_block_wf f_def)
  have lf: "length (concat (map f [0..<m])) = m * hl" for m
    using m2[of m, symmetric] by (simp add: mgf_blocks_length hl_def)
  have cq: "cnt \<le> n div hl + 1"
  proof -
    have "n + hl - 1 < (n div hl + 1) * hl + hl"
      using hl by (metis Suc_eq_plus1 add.commute add_less_cancel_right dividend_less_div_times less_imp_diff_less mult.commute mult_Suc)
    then have "(n + hl - 1) div hl < n div hl + 1 + 1"
      using hl by (simp add: less_mult_imp_div_less algebra_simps)
    then show ?thesis by (simp add: cnt_def)
  qed
  have nc: "n \<le> cnt * hl"
  proof -
    have "n + hl - 1 < (cnt + 1) * hl" 
      unfolding cnt_def using hl by (metis Suc_eq_plus1 dividend_less_div_times mult.commute add.commute mult_Suc)
    then show ?thesis using hl by (simp add: algebra_simps)
  qed
  have tk: "take n (concat (map f [0..<n div hl + 1])) = take n (concat (map f [0..<cnt]))"
    using concat_upt_prefix[OF cq, of f] nc by (simp add: lf del: upt_Suc)
  have spec: "MGF1_spec H seed n = Some (take n (concat (map f [0..<cnt])))"
    unfolding MGF1_spec_def Let_def hl_def[symmetric] cnt_def[symmetric] m1 using all by simp
  have mask: "mgf1_mask H seed n = take n (concat (map f [0..<n div hl + 1]))"
    unfolding mgf1_mask_def m2 hl_def ..
  show ?thesis by (simp only: spec mask tk)
qed

lemma upt_0_3: "[0..<3] = [0, 1, 2::nat]"
  by code_simp

lemma I2OSP_4_small: "i < 256 \<Longrightarrow> I2OSP i 4 = Some [0, 0, 0, of_nat i]"
  by (simp add: I2OSP_def upt_0_4)

section \<open>The loops on a 32-bit counter return on buffers below \<open>2 ^ 32\<close> bytes\<close>

lemma unat_succ32': "unat (i :: 32 word) < cb \<Longrightarrow> cb < 2 ^ 32 \<Longrightarrow> unat (i + 1) = Suc (unat i)"
  using unat_add_lem[of i 1] by simp

lemma xor_loop_correct:
  assumes cb: "cb < 2 ^ 32"
  shows "cb - unat i = d \<Longrightarrow> unat i \<le> cb \<Longrightarrow> doff + cb \<le> length dst \<Longrightarrow>
    xor_loop cb a aoff b doff i dst =
      Some (take (doff + unat i) dst @ map (\<lambda>j. a ! (aoff + j) XOR b ! j) [unat i..<cb] @
            drop (doff + cb) dst)"
proof (induction d arbitrary: i dst)
  case 0
  then have "unat i = cb" by simp
  then show ?case by (subst xor_loop.simps) simp
next
  case (Suc d)
  then have lt: "unat i < cb" by simp
  have u: "unat (i + 1) = Suc (unat i)" using unat_succ32'[OF lt cb] .
  define v where "v = a ! (aoff + unat i) XOR b ! unat i"
  define dst1 where "dst1 = dst[doff + unat i := v]"
  have IH: "xor_loop cb a aoff b doff (i + 1) dst1 =
      Some (take (doff + unat (i + 1)) dst1 @ map (\<lambda>j. a ! (aoff + j) XOR b ! j) [unat (i + 1)..<cb] @
            drop (doff + cb) dst1)"
    by (rule Suc.IH) (use Suc.prems lt u in \<open>simp_all add: dst1_def\<close>)
  have t: "take (doff + Suc (unat i)) dst1 = take (doff + unat i) dst @ [v]"
    using lt Suc.prems(3) by (simp add: dst1_def take_Suc_conv_app_nth take_update_cancel) 
  have d: "drop (doff + cb) dst1 = drop (doff + cb) dst"
    using lt by (simp add: dst1_def)
  have m: "[unat i..<cb] = unat i # [Suc (unat i)..<cb]"
    using lt by (simp add: upt_conv_Cons)
  show ?case
    using lt
    apply (subst xor_loop.simps)
    apply (simp only: if_True v_def[symmetric] dst1_def[symmetric] IH u t d m)
    apply (simp add: v_def)
    done
qed

lemma xor_loop_0:
  assumes "cb < 2 ^ 32" "doff + cb \<le> length dst"
  shows "xor_loop cb a aoff b doff 0 dst =
      Some (take doff dst @ map (\<lambda>j. a ! (aoff + j) XOR b ! j) [0..<cb] @ drop (doff + cb) dst)"
  using xor_loop_correct[OF assms(1), of 0 cb doff dst a aoff b] assms(2) by simp

lemma xor_loop_inplace_correct:
  assumes cb: "cb < 2 ^ 32"
  shows "cb - unat i = d \<Longrightarrow> unat i \<le> cb \<Longrightarrow> cb \<le> length dst \<Longrightarrow>
    xor_loop_inplace cb a i dst =
      Some (take (unat i) dst @ map (\<lambda>j. a ! j XOR dst ! j) [unat i..<cb] @ drop cb dst)"
proof (induction d arbitrary: i dst)
  case 0
  then have "unat i = cb" by simp
  then show ?case by (subst xor_loop_inplace.simps) simp
next
  case (Suc d)
  then have lt: "unat i < cb" by simp
  have u: "unat (i + 1) = Suc (unat i)" using unat_succ32'[OF lt cb] .
  define v where "v = a ! unat i XOR dst ! unat i"
  define dst1 where "dst1 = dst[unat i := v]"
  have IH: "xor_loop_inplace cb a (i + 1) dst1 =
      Some (take (unat (i + 1)) dst1 @ map (\<lambda>j. a ! j XOR dst1 ! j) [unat (i + 1)..<cb] @
            drop cb dst1)"
    by (rule Suc.IH) (use Suc.prems lt u in \<open>simp_all add: dst1_def\<close>)
  have t: "take (Suc (unat i)) dst1 = take (unat i) dst @ [v]"
    using lt Suc.prems(3) by (simp add: dst1_def take_Suc_conv_app_nth take_update_cancel) 
  have d: "drop cb dst1 = drop cb dst"
    using lt by (simp add: dst1_def)
  have m: "[unat i..<cb] = unat i # [Suc (unat i)..<cb]"
    using lt by (simp add: upt_conv_Cons)
  have mm: "map (\<lambda>j. a ! j XOR dst1 ! j) [Suc (unat i)..<cb] = map (\<lambda>j. a ! j XOR dst ! j) [Suc (unat i)..<cb]"
    by (rule map_cong) (auto simp: dst1_def)
  show ?case
    using lt
    apply (subst xor_loop_inplace.simps)
    apply (simp only: if_True v_def[symmetric] dst1_def[symmetric] IH u t d m mm)
    apply (simp add: v_def)
    done
qed

lemma oaep_label_loop_correct:
  assumes cb: "cb < 2 ^ 32"
  shows "cb - unat i = d \<Longrightarrow> unat i \<le> cb \<Longrightarrow>
    oaep_label_loop cb lh db i = Some (\<forall>j. unat i \<le> j \<and> j < cb \<longrightarrow> lh ! j = db ! j)"
proof (induction d arbitrary: i)
  case 0
  then have "unat i = cb" by simp
  then show ?case by (subst oaep_label_loop.simps) auto
next
  case (Suc d)
  then have lt: "unat i < cb" by simp
  have u: "unat (i + 1) = Suc (unat i)" using unat_succ32'[OF lt cb] .
  have IH: "oaep_label_loop cb lh db (i + 1) = Some (\<forall>j. unat (i + 1) \<le> j \<and> j < cb \<longrightarrow> lh ! j = db ! j)"
    by (rule Suc.IH) (use Suc.prems lt u in simp_all)
  have e: "(\<forall>j. unat i \<le> j \<and> j < cb \<longrightarrow> lh ! j = db ! j) \<longleftrightarrow>
       (lh ! unat i = db ! unat i \<and> (\<forall>j. Suc (unat i) \<le> j \<and> j < cb \<longrightarrow> lh ! j = db ! j))"
    using lt by (metis Suc_leD Suc_leI le_neq_implies_less order_refl)
  show ?case
    using lt
    apply (subst oaep_label_loop.simps)
    apply (simp only: if_True IH u e)
    apply simp
    done
qed

lemma pss_padding2_loop_correct:
  assumes cb: "cb < 2 ^ 32"
  shows "cb - unat i = d \<Longrightarrow> unat i \<le> cb \<Longrightarrow>
    pss_padding2_loop cb xs i = Some (\<forall>j. unat i \<le> j \<and> j < cb \<longrightarrow> xs ! j = 0)"
proof (induction d arbitrary: i)
  case 0
  then have "unat i = cb" by simp
  then show ?case by (subst pss_padding2_loop.simps) auto
next
  case (Suc d)
  then have lt: "unat i < cb" by simp
  have u: "unat (i + 1) = Suc (unat i)" using unat_succ32'[OF lt cb] .
  have IH: "pss_padding2_loop cb xs (i + 1) = Some (\<forall>j. unat (i + 1) \<le> j \<and> j < cb \<longrightarrow> xs ! j = 0)"
    by (rule Suc.IH) (use Suc.prems lt u in simp_all)
  have e: "(\<forall>j. unat i \<le> j \<and> j < cb \<longrightarrow> xs ! j = 0) \<longleftrightarrow>
       (xs ! unat i = 0 \<and> (\<forall>j. Suc (unat i) \<le> j \<and> j < cb \<longrightarrow> xs ! j = 0))"
    using lt by (metis Suc_leD Suc_leI le_neq_implies_less order_refl)
  show ?case
    using lt
    apply (subst pss_padding2_loop.simps)
    apply (simp only: if_True IH u e)
    apply simp
    done
qed

lemma pkcs1_scan_correct:
  assumes len: "length pb < 2 ^ 32"
  shows "p - unat i = d \<Longrightarrow> unat i \<le> p \<Longrightarrow> p < length pb \<Longrightarrow> pb ! p = 0 \<Longrightarrow>
     (\<forall>j. unat i \<le> j \<and> j < p \<longrightarrow> pb ! j \<noteq> 0) \<Longrightarrow> pkcs1_scan pb i = Some (of_nat p)"
proof (induction d arbitrary: i)
  case 0
  then have "unat i = p" by simp
  then have "i = of_nat p" by (metis of_nat_unat ucast_id)
  with 0 show ?case by (subst pkcs1_scan.simps) (simp add: \<open>unat i = p\<close>)
next
  case (Suc d)
  then have lt: "unat i < p" by simp
  then have lt2: "unat i < length pb" using Suc.prems by simp
  have u: "unat (i + 1) = Suc (unat i)" using unat_succ32'[OF lt2 len] .
  have nz: "pb ! unat i \<noteq> 0" using Suc.prems(5) lt by simp
  have IH: "pkcs1_scan pb (i + 1) = Some (of_nat p)"
    by (rule Suc.IH) (use Suc.prems lt u in simp_all)
  show ?case
    using lt2 nz
    apply (subst pkcs1_scan.simps)
    apply (simp only: if_True if_False IH)
    done
qed

lemma pkcs1_scan_none:
  assumes len: "length pb < 2 ^ 32"
  shows "length pb - unat i = d \<Longrightarrow> unat i \<le> length pb \<Longrightarrow> 
     (\<forall>j. unat i \<le> j \<and> j < length pb \<longrightarrow> pb ! j \<noteq> 0) \<Longrightarrow> pkcs1_scan pb i = Some (of_nat (length pb))"
proof (induction d arbitrary: i)
  case 0
  then have "unat i = length pb" by simp
  then have "i = of_nat (length pb)" by (metis of_nat_unat ucast_id)
  with 0 show ?case by (subst pkcs1_scan.simps) (simp add: \<open>unat i = length pb\<close>)
next
  case (Suc d)
  then have lt2: "unat i < length pb" by simp
  have u: "unat (i + 1) = Suc (unat i)" using unat_succ32'[OF lt2 len] .
  have nz: "pb ! unat i \<noteq> 0" using Suc.prems(3) lt2 by simp
  have IH: "pkcs1_scan pb (i + 1) = Some (of_nat (length pb))"
    by (rule Suc.IH) (use Suc.prems lt2 u in simp_all)
  show ?case
    using lt2 nz
    apply (subst pkcs1_scan.simps)
    apply (simp only: if_True if_False IH)
    done
qed

lemma pkcs1_redraw_nonzero:
  assumes "pkcs1_redraw R s b = Some r"
  shows "fst r = SYMCRYPT_NO_ERROR \<longrightarrow> fst (snd r) \<noteq> 0"
proof (rule pkcs1_redraw.raw_induct[where P = "\<lambda>R s b r. fst r = SYMCRYPT_NO_ERROR \<longrightarrow> fst (snd r) \<noteq> 0", OF _ assms])
  fix f R s b r
  assume IH: "\<And>R s b y. f R s b = Some y \<Longrightarrow> fst y = SYMCRYPT_NO_ERROR \<longrightarrow> fst (snd y) \<noteq> 0"
    and eq: "(if b = 0
      then case SymCryptCallbackRandom R s 1 of
           (scError, bs, s') \<Rightarrow>
             if scError \<noteq> SYMCRYPT_NO_ERROR then Some (scError, bs ! 0, s')
             else f R s' (bs ! 0)
      else Some (SYMCRYPT_NO_ERROR, b, s)) = Some r"
  show "fst r = SYMCRYPT_NO_ERROR \<longrightarrow> fst (snd r) \<noteq> 0"
  proof (cases "b = 0")
    case True
    obtain e bs s1 where c: "SymCryptCallbackRandom R s 1 = (e, bs, s1)"
      by (cases "SymCryptCallbackRandom R s 1") auto
    show ?thesis
    proof (cases "e = SYMCRYPT_NO_ERROR")
      case True
      with eq \<open>b = 0\<close> c have "f R s1 (bs ! 0) = Some r" by simp
      then show ?thesis by (rule IH)
    next
      case False
      with eq \<open>b = 0\<close> c show ?thesis by auto
    qed
  next
    case False
    with eq show ?thesis by auto
  qed
qed

lemma pkcs1_nonzero_ps_nonzero:
  "pkcs1_nonzero_ps R s ps = Some (SYMCRYPT_NO_ERROR, ps', s') \<Longrightarrow>
     length ps' = length ps \<and> (\<forall>b\<in>set ps'. b \<noteq> 0)"
proof (induction ps arbitrary: s ps' s')
  case Nil
  then show ?case by simp
next
  case (Cons b bs)
  from Cons.prems obtain b1 s1 ps1 where
      r: "pkcs1_redraw R s b = Some (SYMCRYPT_NO_ERROR, b1, s1)"
      and n: "pkcs1_nonzero_ps R s1 bs = Some (SYMCRYPT_NO_ERROR, ps1, s')"
      and p: "ps' = b1 # ps1"
    by (auto split: option.splits prod.splits if_splits)
  from pkcs1_redraw_nonzero[OF r] have "b1 \<noteq> 0" by simp
  with Cons.IH[OF n] p show ?case by simp
qed

section \<open>OAEP: what the removal computes on a block\<close>

lemma xor_bytes_length: "length a = length b \<Longrightarrow> length (xor_bytes a b) = length a"
  by (simp add: xor_bytes_def)

lemma xor_bytes_nth: "j < length a \<Longrightarrow> length a = length b \<Longrightarrow> xor_bytes a b ! j = a ! j XOR b ! j"
  by (simp add: xor_bytes_def)

lemma xor_cancel: "((a :: byte) XOR b) XOR b = a"
  by (simp add: xor.assoc)

lemma xor_bytes_cancel: "length a = length b \<Longrightarrow> xor_bytes (xor_bytes a b) b = a"
  by (rule nth_equalityI) (simp_all add: xor_bytes_length xor_bytes_nth xor_cancel)

lemma region_length: "off + n \<le> length buf \<Longrightarrow> length (region buf off n) = n"
  by (simp add: region_def)

lemma region_append2: "length a = off \<Longrightarrow> length b = n \<Longrightarrow> region (a @ b @ c) off n = b"
  by (simp add: region_def)

lemma region_append1: "length a = off \<Longrightarrow> length b = n \<Longrightarrow> region (a @ b) off n = b"
  by (simp add: region_def)

lemma map_xor_region:
  assumes "off + n \<le> length a" "length m = n"
  shows "map (\<lambda>j. a ! (off + j) XOR m ! j) [0..<n] = xor_bytes (region a off n) m"
  using assms by (auto simp: xor_bytes_def region_def intro!: nth_equalityI)

lemma hash_copy: "length dst = n \<Longrightarrow> SymCryptHash H x dst 0 n = map (\<lambda>j. digest H x ! j) [0..<n]"
  by (simp add: SymCryptHash_def memcpy_def)

lemma oaep_block_length:
  "0 < resultSize H \<Longrightarrow> length seed = resultSize H \<Longrightarrow>
   length (oaep_block H seed DB) = 1 + resultSize H + length DB"
  by (simp add: oaep_block_def Let_def xor_bytes_length mgf1_mask_length)

lemma oaep_remove_block:
  assumes h: "0 < resultSize H" "resultSize H < 2 ^ 32" and sd: "length seed = resultSize H"
    and db: "length DB < 2 ^ 32"
    and scr: "stateSize H + resultSize H * 3 + length DB * 2 \<le> length scr"
  shows "SymCryptRsaOaepRemoveEncryptionPadding (oaep_block H seed DB) H label 0 pt scr =
    (let hl = resultSize H;
         lh = map (\<lambda>j. digest H label ! j) [0..<hl];
         fromDB = DB @ lh
     in if \<not> (\<forall>j<hl. lh ! j = fromDB ! j) then Some (SYMCRYPT_INVALID_ARGUMENT, None, pt)
        else case oaep_ps_loop fromDB (length DB) hl of
               Inl e \<Rightarrow> Some (e, None, pt)
             | Inr cnt \<Rightarrow>
                 let n = size_sub (length DB) cnt in
                 (case pt of
                    None \<Rightarrow> Some (SYMCRYPT_NO_ERROR, Some n, None)
                  | Some buf \<Rightarrow>
                      if length buf < n then Some (SYMCRYPT_BUFFER_TOO_SMALL, Some n, Some buf)
                      else Some (SYMCRYPT_NO_ERROR, Some n, Some (memcpy buf 0 (drop cnt fromDB) n))))"
proof -
  define hl where "hl = resultSize H"
  define cbDB where "cbDB = length DB"
  define maskedDB where "maskedDB = xor_bytes DB (mgf1_mask H seed cbDB)"
  define seedMask where "seedMask = mgf1_mask H maskedDB hl"
  define maskedSeed where "maskedSeed = xor_bytes seed seedMask"
  define EM where "EM = oaep_block H seed DB"
  have hl: "0 < hl" "hl < 2 ^ 32" "length seed = hl" using h sd by (simp_all add: hl_def)
  have lDB: "length DB = cbDB" by (simp add: cbDB_def)
  have EM: "EM = [0x00] @ maskedSeed @ maskedDB"
    by (simp add: EM_def oaep_block_def Let_def maskedDB_def seedMask_def maskedSeed_def hl_def cbDB_def)
  have lmd: "length maskedDB = cbDB"
    using h by (simp add: maskedDB_def xor_bytes_length mgf1_mask_length cbDB_def)
  have lsm: "length seedMask = hl" using h by (simp add: seedMask_def mgf1_mask_length hl_def)
  have lms: "length maskedSeed = hl" using hl lsm by (simp add: maskedSeed_def xor_bytes_length)
  have lEM: "length EM = hl + 1 + cbDB" by (simp add: EM lmd lms)
  have EM0: "EM ! 0 = 0" by (simp add: EM)
  have cb: "length EM - (hl + 1) = cbDB" by (simp add: lEM)
  have scr': "stateSize H + hl * 3 + cbDB * 2 \<le> length scr" using scr by (simp add: hl_def cbDB_def)
  have r1: "region EM (hl + 1) cbDB = maskedDB"
    using region_append1[of "[0x00] @ maskedSeed" "hl + 1" maskedDB cbDB] lms lmd by (simp add: EM)
  have r1': "region EM (Suc hl) cbDB = maskedDB" using r1 by simp
  have m1: "SymCryptRsaPaddingMaskGeneration H maskedDB (region scr (stateSize H) hl) = Some seedMask"
    using h scr' by (simp add: mgf_correct region_length seedMask_def)
  have x1: "xor_loop hl EM 1 seedMask 0 0 (region scr (stateSize H + hl) hl) = Some seed"
  proof -
    have "region EM 1 hl = maskedSeed"
      using region_append2[of "[0x00]" 1 maskedSeed hl maskedDB] lms by (simp add: EM)
    then have "map (\<lambda>j. EM ! (1 + j) XOR seedMask ! j) [0..<hl] = seed"
      using map_xor_region[of 1 hl EM seedMask] lEM lsm hl
      by (simp add: maskedSeed_def xor_bytes_cancel)
    then show ?thesis
      using xor_loop_0[of hl 0 "region scr (stateSize H + hl) hl" EM 1 seedMask] hl scr'
      by (simp add: region_length)
  qed
  have m2: "SymCryptRsaPaddingMaskGeneration H seed (region scr (stateSize H + hl + hl) cbDB) =
      Some (mgf1_mask H seed cbDB)"
    using h scr' by (simp add: mgf_correct region_length)
  have x2: "xor_loop cbDB EM (hl + 1) (mgf1_mask H seed cbDB) 0 0
       (region scr (stateSize H + hl + hl + cbDB) cbDB) = Some DB"
  proof -
    have "map (\<lambda>j. EM ! (hl + 1 + j) XOR mgf1_mask H seed cbDB ! j) [0..<cbDB] = DB"
      using map_xor_region[of "hl + 1" cbDB EM "mgf1_mask H seed cbDB"] lEM h lDB
      by (simp add: r1' mgf1_mask_length maskedDB_def xor_bytes_cancel)
    then show ?thesis
      using xor_loop_0[of cbDB 0 "region scr (stateSize H + hl + hl + cbDB) cbDB" EM "hl + 1"
          "mgf1_mask H seed cbDB"] db scr'
      by (simp add: region_length cbDB_def[symmetric])
  qed
  have lh: "SymCryptHash H label (region scr (stateSize H + hl + hl + cbDB + cbDB) hl) 0 hl =
      map (\<lambda>j. digest H label ! j) [0..<hl]"
    using scr' by (simp add: hash_copy region_length)
  have ll: "oaep_label_loop hl lh fromDB 0 = Some (\<forall>j<hl. lh ! j = fromDB ! j)" for lh fromDB
    using oaep_label_loop_correct[OF hl(2), of 0 hl lh fromDB] by simp
  show ?thesis
    unfolding EM_def[symmetric] SymCryptRsaOaepRemoveEncryptionPadding_def
    apply (simp only: Let_def SymCryptHashResultSize_def SymCryptHashStateSize_def hl_def[symmetric]
        cb r1 m1 x1 m2 x2 lh ll Option.bind_lunit lDB)
    apply (subst if_not_P, simp)
    apply (subst if_not_P, simp add: lEM EM0)
    apply (subst if_not_P, simp add: scr')
    apply (rule refl)
    done
qed

lemma size_sub_ge: "b \<le> a \<Longrightarrow> a < 2 ^ 64 \<Longrightarrow> size_sub a b = a - b"
  by (simp add: size_sub_def unat_sub_if_size unat_of_nat word_size)

lemma size_sub_lt: "a < b \<Longrightarrow> b < 2 ^ 64 \<Longrightarrow> size_sub a b = 2 ^ 64 + a - b"
  by (simp add: size_sub_def unat_sub_if_size unat_of_nat word_size)

lemma oaep_ps_loop_zeros:
  "c \<le> cbDB \<Longrightarrow> (\<forall>j. c \<le> j \<and> j < cbDB \<longrightarrow> xs ! j = 0) \<Longrightarrow> oaep_ps_loop xs cbDB c = Inr cbDB"
proof (induction xs cbDB c rule: oaep_ps_loop.induct)
  case (1 pbDB cbDB cnt)
  show ?case
  proof (cases "cnt < cbDB")
    case True
    then have z: "pbDB ! cnt = 0" using 1 by simp
    have "oaep_ps_loop pbDB cbDB (cnt + 1) = Inr cbDB"
      using 1 True z by simp
    then show ?thesis using True z by (subst oaep_ps_loop.simps) simp
  next
    case False
    then show ?thesis using 1 by (subst oaep_ps_loop.simps) simp
  qed
qed

lemma oaep_ps_loop_found:
  "c \<le> p \<Longrightarrow> p < cbDB \<Longrightarrow> xs ! p = 1 \<Longrightarrow> (\<forall>j. c \<le> j \<and> j < p \<longrightarrow> xs ! j = 0) \<Longrightarrow>
   oaep_ps_loop xs cbDB c = Inr (p + 1)"
proof (induction xs cbDB c rule: oaep_ps_loop.induct)
  case (1 pbDB cbDB cnt)
  then have lt: "cnt < cbDB" by simp
  show ?case
  proof (cases "cnt = p")
    case True
    then show ?thesis using 1 lt by (subst oaep_ps_loop.simps) simp
  next
    case False
    then have z: "pbDB ! cnt = 0" using 1 by simp
    have "oaep_ps_loop pbDB cbDB (cnt + 1) = Inr (p + 1)"
      using 1 False z lt by simp
    then show ?thesis using lt z by (subst oaep_ps_loop.simps) simp
  qed
qed

lemma oaep_ps_loop_le:
  "oaep_ps_loop xs cbDB c = Inr cnt \<Longrightarrow> c \<le> cbDB \<Longrightarrow> c \<le> cnt \<and> cnt \<le> cbDB"
proof (induction xs cbDB c rule: oaep_ps_loop.induct)
  case (1 pbDB cbDB cnt0)
  show ?case
  proof (cases "cnt0 < cbDB")
    case True
    then show ?thesis using 1
      by (subst (asm) (2) oaep_ps_loop.simps) (auto split: if_splits)
  next
    case False
    then show ?thesis using 1 by (subst (asm) oaep_ps_loop.simps) simp
  qed
qed

lemma xor_bytes_Nil: "xor_bytes [] b = []"
  by (simp add: xor_bytes_def)

lemma xor_bytes_cancel2: "length a = length b \<Longrightarrow> xor_bytes (xor_bytes a b) b = a"
  by (rule xor_bytes_cancel)

text \<open>Every block of at least \<open>hLen + 1\<close> bytes that starts with \<open>0x00\<close> is an OAEP block.\<close>

lemma oaep_block_any:
  assumes h: "0 < resultSize H" and ms: "length ms = resultSize H"
  shows "\<exists>seed DB. length seed = resultSize H \<and> length DB = length md \<and>
           oaep_block H seed DB = 0x00 # ms @ md"
proof -
  define seed where "seed = xor_bytes ms (mgf1_mask H md (resultSize H))"
  define DB where "DB = xor_bytes md (mgf1_mask H seed (length md))"
  have ls: "length seed = resultSize H"
    using h ms by (simp add: seed_def xor_bytes_length mgf1_mask_length)
  have ld: "length DB = length md"
    using h by (simp add: DB_def xor_bytes_length mgf1_mask_length)
  have 1: "xor_bytes DB (mgf1_mask H seed (length md)) = md"
    using h by (simp add: DB_def xor_bytes_cancel mgf1_mask_length)
  have 2: "xor_bytes seed (mgf1_mask H md (resultSize H)) = ms"
    using h ms by (simp add: seed_def xor_bytes_cancel mgf1_mask_length)
  show ?thesis
    apply (rule exI[of _ seed], rule exI[of _ DB])
    using ls ld apply (simp add: oaep_block_def Let_def 1 2)
    done
qed

lemma oaep_remove_short_block:
  assumes h: "0 < resultSize H" "resultSize H < 2 ^ 32" and xs: "length xs = resultSize H"
    and scr: "stateSize H + resultSize H * 3 \<le> length scr"
  shows "SymCryptRsaOaepRemoveEncryptionPadding (0x00 # xs) H label 0 None scr =
           Some (SYMCRYPT_NO_ERROR, Some (2 ^ 64 - resultSize H), None)"
proof -
  obtain seed DB where s: "length seed = resultSize H" and d: "length DB = length ([] :: byte list)"
    and b: "oaep_block H seed DB = 0x00 # xs @ []"
    using oaep_block_any[OF h(1) xs, of "[]"] by blast
  have DB: "DB = []" using d by simp
  have l: "oaep_ps_loop (map (\<lambda>j. digest H label ! j) [0..<resultSize H]) 0 (resultSize H) = Inr (resultSize H)"
    by (subst oaep_ps_loop.simps) simp
  have z: "size_sub 0 (resultSize H) = 2 ^ 64 - resultSize H"
    using size_sub_lt[of 0 "resultSize H"] h by simp
  have lab: "\<forall>j<resultSize H. map (\<lambda>j. digest H label ! j) [0..<resultSize H] ! j =
       ([] @ map (\<lambda>j. digest H label ! j) [0..<resultSize H]) ! j"
    by simp
  have "SymCryptRsaOaepRemoveEncryptionPadding (oaep_block H seed []) H label 0 None scr =
           Some (SYMCRYPT_NO_ERROR, Some (2 ^ 64 - resultSize H), None)"
    apply (subst oaep_remove_block[OF h s])
    using scr apply simp_all
    apply (simp only: Let_def lab l z append_Nil list.size if_False not_True_eq_False
        sum.case option.case simp_thms)
    apply simp
    done
  then show ?thesis using b by (simp add: DB)
qed

lemma oaep_remove_no_separator:
  assumes h: "0 < resultSize H" "resultSize H < 2 ^ 32" and sd: "length seed = resultSize H"
    and n: "resultSize H + n < 2 ^ 32"
    and scr: "stateSize H + resultSize H * 3 + (resultSize H + n) * 2 \<le> length scr"
    and DB: "DB = map (\<lambda>j. digest H label ! j) [0..<resultSize H] @ replicate n 0x00"
  shows "SymCryptRsaOaepRemoveEncryptionPadding (oaep_block H seed DB) H label 0 pt scr =
           Some (SYMCRYPT_NO_ERROR, Some 0, pt)"
proof -
  define lh where "lh = map (\<lambda>j. digest H label ! j) [0..<resultSize H]"
  have llh: "length lh = resultSize H" by (simp add: lh_def)
  have lDB: "length DB = resultSize H + n" by (simp add: DB)
  have lab: "\<forall>j<resultSize H. lh ! j = (DB @ lh) ! j"
    by (simp add: DB lh_def[symmetric] nth_append llh)
  have ps: "oaep_ps_loop (DB @ lh) (length DB) (resultSize H) = Inr (length DB)"
    by (rule oaep_ps_loop_zeros) (auto simp: DB lh_def[symmetric] nth_append llh)
  have z: "size_sub (length DB) (length DB) = 0"
    using size_sub_ge[of "length DB" "length DB"] n lDB by simp
  have m: "memcpy buf 0 src 0 = buf" for buf src by (simp add: memcpy_def)
  show ?thesis
    apply (subst oaep_remove_block[OF h sd])
    using n scr apply (simp_all add: lDB)
    apply (simp only: Let_def lh_def[symmetric] lab ps z m if_False not_True_eq_False
        sum.case simp_thms lDB[symmetric])
    apply (cases pt; simp add: lab)
    done
qed

lemma oaep_DB_form:
  assumes l: "length buf = hl + cbPS + 1 + length M"
  shows "memcpy ((SymCryptWipe (SymCryptHash H L buf 0 hl) hl cbPS)[hl + cbPS := 0x01])
            (hl + cbPS + 1) M (length M) =
         map (\<lambda>j. digest H L ! j) [0..<hl] @ replicate cbPS 0x00 @ [0x01] @ M"
proof -
  obtain A r1 where 1: "buf = A @ r1" "length A = hl" "length r1 = cbPS + 1 + length M"
    using split_at[of hl buf] l by auto
  obtain B r2 where 2: "r1 = B @ r2" "length B = cbPS" "length r2 = 1 + length M"
    using split_at[of cbPS r1] 1 by auto
  obtain c D where 3: "r2 = c # D" "length D = length M"
    using split_hd[of r2] 2 by auto
  have b: "buf = A @ B @ c # D" by (simp add: 1 2 3)
  show ?thesis
    using 1(2) 2(2) 3(2)
    by (simp add: b SymCryptHash_def SymCryptWipe_def memcpy_def memset_def list_update_append map_nth)
qed

lemma xor_loop_bound:
  assumes "xor_loop cb a aoff b doff i dst = Some y"
  shows "cb < 2 ^ 32"
proof (rule xor_loop.raw_induct[where P = "\<lambda>cb a aoff b doff i dst y. cb < 2 ^ 32", OF _ assms])
  fix f cb a aoff b doff and i :: "32 word" and dst y :: "byte list"
  assume IH: "\<And>cb a aoff b doff i dst y. f cb a aoff b doff i dst = Some y \<Longrightarrow> cb < 2 ^ 32"
    and eq: "(if unat i < cb
              then f cb a aoff b doff (i + 1) (dst[doff + unat i := a ! (aoff + unat i) XOR b ! unat i])
              else Some dst) = Some y"
  show "cb < 2 ^ 32"
  proof (cases "unat i < cb")
    case True
    with eq show ?thesis using IH by simp
  next
    case False
    have "unat i < 2 ^ 32" using unsigned_less[of i] by simp
    with False show ?thesis by simp
  qed
qed

lemma xor_loop_None: "\<not> cb < 2 ^ 32 \<Longrightarrow> xor_loop cb a aoff b doff i dst = None"
  using xor_loop_bound[of cb a aoff b doff i dst] by (cases "xor_loop cb a aoff b doff i dst") auto

lemma oaep_apply_block:
  assumes h: "0 < resultSize H" "resultSize H < 2 ^ 32" and sd: "length seed = resultSize H"
    and len: "length M + resultSize H * 2 + 2 \<le> length fmt"
    and scr: "stateSize H + resultSize H * 2 + (length fmt - (resultSize H + 1)) * 2 \<le> length scr"
  shows "SymCryptRsaOaepApplyEncryptionPadding R s M H L (Some seed) (length seed) 0 fmt scr =
    (if length fmt - (resultSize H + 1) < 2 ^ 32
     then Some (SYMCRYPT_NO_ERROR,
            oaep_block H seed (map (\<lambda>j. digest H L ! j) [0..<resultSize H] @
               replicate (length fmt - (length M + resultSize H * 2 + 2)) 0x00 @ [0x01] @ M), s)
     else None)"
proof -
  define hl where "hl = resultSize H"
  define cbPS where "cbPS = length fmt - (length M + hl * 2 + 2)"
  define cbDB where "cbDB = length fmt - (hl + 1)"
  define DB where "DB = map (\<lambda>j. digest H L ! j) [0..<hl] @ replicate cbPS 0x00 @ [0x01] @ M"
  define dbMask where "dbMask = mgf1_mask H seed cbDB"
  define maskedDB where "maskedDB = xor_bytes DB dbMask"
  define seedMask where "seedMask = mgf1_mask H maskedDB hl"
  define maskedSeed where "maskedSeed = xor_bytes seed seedMask"
  have hl: "0 < hl" "hl < 2 ^ 32" "length seed = hl" using h sd by (simp_all add: hl_def)
  have len': "length M + hl * 2 + 2 \<le> length fmt" using len by (simp add: hl_def)
  have scr': "stateSize H + hl * 2 + cbDB * 2 \<le> length scr" using scr by (simp add: hl_def cbDB_def)
  have cbDB: "cbDB = hl + cbPS + 1 + length M" using len' by (simp add: cbDB_def cbPS_def)
  have lDB: "length DB = cbDB" by (simp add: DB_def cbDB)
  have ldm: "length dbMask = cbDB" using h by (simp add: dbMask_def mgf1_mask_length)
  have lmd: "length maskedDB = cbDB" by (simp add: maskedDB_def xor_bytes_length lDB ldm)
  have lsm: "length seedMask = hl" using h by (simp add: seedMask_def mgf1_mask_length hl_def)
  have lms: "length maskedSeed = hl" by (simp add: maskedSeed_def xor_bytes_length hl lsm)
  have lf: "length fmt = 1 + hl + cbDB" using len' by (simp add: cbDB_def)
  have blk: "oaep_block H seed DB = [0x00] @ maskedSeed @ maskedDB"
    by (simp add: oaep_block_def Let_def lDB maskedDB_def dbMask_def seedMask_def maskedSeed_def hl_def)
  have db: "memcpy ((SymCryptWipe (SymCryptHash H L (region scr (stateSize H + hl + hl) cbDB) 0 hl) hl cbPS)
              [hl + cbPS := 0x01]) (hl + cbPS + 1) M (length M) = DB"
    unfolding DB_def by (rule oaep_DB_form) (use scr' cbDB in \<open>simp add: region_length\<close>)
  have sdi: "memcpy (SymCryptWipe (region scr (stateSize H) hl) 0 hl) 0 seed (length seed) = seed"
    using scr' hl map_nth[of seed] by (simp add: memcpy_def SymCryptWipe_def memset_def region_length)
  have m1: "SymCryptRsaPaddingMaskGeneration H seed (region scr (stateSize H + hl + hl + cbDB) cbDB) = Some dbMask"
    using h scr' by (simp add: mgf_correct region_length dbMask_def)
  show ?thesis
  proof (cases "cbDB < 2 ^ 32")
    case False
    have x: "xor_loop cbDB DB 0 dbMask (hl + 1) 0 (fmt[0 := 0x00]) = None"
      using False by (rule xor_loop_None)
    show ?thesis
      unfolding SymCryptRsaOaepApplyEncryptionPadding_def
      apply (simp only: Let_def SymCryptHashResultSize_def SymCryptHashStateSize_def hl_def[symmetric]
          cbDB_def[symmetric] cbPS_def[symmetric] option.case prod.case db sdi m1 x Option.bind_lunit
          Option.bind.bind_lzero)
      using False len' scr' hl apply simp
      done
  next
    case True
    obtain f0 fs fd where f: "fmt = f0 # fs @ fd" "length fs = hl" "length fd = cbDB"
    proof -
      obtain f0 r where 1: "fmt = f0 # r" "length r = hl + cbDB" using split_hd[of fmt] lf by auto
      obtain fs fd where 2: "r = fs @ fd" "length fs = hl" "length fd = cbDB"
        using split_at[of hl r] 1 by auto
      show ?thesis using that[of f0 fs fd] 1 2 by simp
    qed
    have x1: "xor_loop cbDB DB 0 dbMask (hl + 1) 0 (fmt[0 := 0x00]) = Some ([0x00] @ fs @ maskedDB)"
    proof -
      have "map (\<lambda>j. DB ! (0 + j) XOR dbMask ! j) [0..<cbDB] = xor_bytes (region DB 0 cbDB) dbMask"
        by (rule map_xor_region) (simp_all add: lDB ldm)
      moreover have "region DB 0 cbDB = DB" by (simp add: region_def lDB)
      ultimately have "map (\<lambda>j. DB ! (0 + j) XOR dbMask ! j) [0..<cbDB] = maskedDB"
        by (simp add: maskedDB_def)
      then show ?thesis
        using xor_loop_0[OF True, of "hl + 1" "fmt[0 := 0x00]" DB 0 dbMask] f
        by simp
    qed
    have r: "region ([0x00] @ fs @ maskedDB) (hl + 1) cbDB = maskedDB"
      using region_append1[of "[0x00] @ fs" "hl + 1" maskedDB cbDB] f lmd by simp
    have m2: "SymCryptRsaPaddingMaskGeneration H maskedDB (region scr (stateSize H + hl) hl) = Some seedMask"
      using h scr' by (simp add: mgf_correct region_length seedMask_def)
    have x2: "xor_loop hl seed 0 seedMask 1 0 ([0x00] @ fs @ maskedDB) = Some ([0x00] @ maskedSeed @ maskedDB)"
    proof -
      have "map (\<lambda>j. seed ! (0 + j) XOR seedMask ! j) [0..<hl] = xor_bytes (region seed 0 hl) seedMask"
        by (rule map_xor_region) (simp_all add: hl lsm)
      moreover have "region seed 0 hl = seed" by (simp add: region_def hl)
      ultimately have "map (\<lambda>j. seed ! (0 + j) XOR seedMask ! j) [0..<hl] = maskedSeed"
        by (simp add: maskedSeed_def)
      then show ?thesis
        using xor_loop_0[OF hl(2), of 1 "[0x00] @ fs @ maskedDB" seed 0 seedMask] f
        by simp
    qed
    show ?thesis
      unfolding SymCryptRsaOaepApplyEncryptionPadding_def
      apply (simp only: Let_def SymCryptHashResultSize_def SymCryptHashStateSize_def hl_def[symmetric]
          cbDB_def[symmetric] cbPS_def[symmetric] option.case prod.case db sdi m1 x1 r m2 x2 Option.bind_lunit
          DB_def[symmetric] blk)
      using True len' scr' hl apply simp
      done
  qed
qed

lemma memcpy_prefix:
  "n \<le> length buf \<Longrightarrow> length src = n \<Longrightarrow> memcpy buf 0 (src @ rest) n = src @ drop n buf"
proof -
  assume a: "n \<le> length buf" "length src = n"
  have "map (\<lambda>i. (src @ rest) ! i) [0..<n] = src"
    using a by (auto simp: nth_append intro!: nth_equalityI)
  then show ?thesis by (simp add: memcpy_def)
qed

lemma oaep_remove_padded:
  assumes h: "0 < resultSize H" "resultSize H < 2 ^ 32" and sd: "length seed = resultSize H"
    and DB: "DB = map (\<lambda>j. digest H L ! j) [0..<resultSize H] @ replicate cbPS 0x00 @ [0x01] @ M"
    and db: "length DB < 2 ^ 32"
    and scr: "stateSize H + resultSize H * 3 + length DB * 2 \<le> length scr"
  shows "SymCryptRsaOaepRemoveEncryptionPadding (oaep_block H seed DB) H L 0 pt scr =
    (case pt of
       None \<Rightarrow> Some (SYMCRYPT_NO_ERROR, Some (length M), None)
     | Some buf \<Rightarrow>
         if length buf < length M then Some (SYMCRYPT_BUFFER_TOO_SMALL, Some (length M), Some buf)
         else Some (SYMCRYPT_NO_ERROR, Some (length M), Some (M @ drop (length M) buf)))"
proof -
  define hl where "hl = resultSize H"
  define lh where "lh = map (\<lambda>j. digest H L ! j) [0..<hl]"
  have llh: "length lh = hl" by (simp add: lh_def)
  have DB': "DB = lh @ replicate cbPS 0x00 @ [0x01] @ M" by (simp add: DB lh_def hl_def)
  have lDB: "length DB = hl + cbPS + 1 + length M" by (simp add: DB' llh)
  have lab: "\<forall>j<hl. lh ! j = (DB @ lh) ! j"
    by (simp add: DB' nth_append llh)
  have ps: "oaep_ps_loop (DB @ lh) (length DB) hl = Inr (hl + cbPS + 1)"
  proof (rule oaep_ps_loop_found)
    show "hl \<le> hl + cbPS" by simp
    show "hl + cbPS < length DB" by (simp add: lDB)
    show "(DB @ lh) ! (hl + cbPS) = 1" by (simp add: DB' nth_append llh)
    show "\<forall>j. hl \<le> j \<and> j < hl + cbPS \<longrightarrow> (DB @ lh) ! j = 0"
      by (auto simp: DB' nth_append llh)
  qed
  have z: "size_sub (length DB) (hl + cbPS + 1) = length M"
    using size_sub_ge[of "hl + cbPS + 1" "length DB"] db lDB by simp
  have dr: "drop (hl + cbPS + 1) (DB @ lh) = M @ lh"
    by (simp add: DB' llh)
  have mc: "length M \<le> length buf \<Longrightarrow> memcpy buf 0 (M @ lh) (length M) = M @ drop (length M) buf" for buf
    by (rule memcpy_prefix) simp_all
  show ?thesis
    apply (subst oaep_remove_block[OF h sd db scr])
    apply (simp only: Let_def hl_def[symmetric] lh_def[symmetric] lab ps z dr if_False not_True_eq_False
        sum.case simp_thms)
    apply (cases pt; simp add: mc lab)
    done
qed

lemma test_block: "oaep_block test_hash [0x11, 0x22] ([0x61, 0x16] @ replicate 1 0x00 @ [0x01] @ [0x48, 0x65, 0x6C]) =
  [0x00, 0x43, 0x25, 0xB5, 0x7F, 0xD5, 0x69, 0x9E, 0x0E, 0xBB]"
  by code_simp

lemma upt_0_2: "[0..<2] = [0, 1::nat]"
  by code_simp

lemma len2: "length [a, b] = 2"
  by simp

lemma test_block2: "oaep_block test_hash [0x11, 0x22] ([0x61, 0x16] @ replicate 3 0x00) =
  [0x00, 0xEB, 0xD9, 0xB5, 0x7F, 0xD5, 0x68, 0xD6]"
  by code_simp

section \<open>PKCS\#1 v1.5 encryption padding: the form of the block\<close>

lemma unat_succ32'': "unat (i :: 32 word) < p \<Longrightarrow> p < 2 ^ 32 \<Longrightarrow> unat (i + 1) = Suc (unat i)"
  using unat_add_lem[of i 1] by simp

lemma pkcs1_scan_found:
  assumes p32: "p < 2 ^ 32"
  shows "p - unat i = d \<Longrightarrow> unat i \<le> p \<Longrightarrow> p < length pb \<Longrightarrow> pb ! p = 0 \<Longrightarrow>
     (\<forall>j. unat i \<le> j \<and> j < p \<longrightarrow> pb ! j \<noteq> 0) \<Longrightarrow> pkcs1_scan pb i = Some (of_nat p)"
proof (induction d arbitrary: i)
  case 0
  then have "unat i = p" by simp
  then have "i = of_nat p" by (metis of_nat_unat ucast_id)
  with 0 show ?case by (subst pkcs1_scan.simps) (simp add: \<open>unat i = p\<close>)
next
  case (Suc d)
  then have lt: "unat i < p" by simp
  then have lt2: "unat i < length pb" using Suc.prems by simp
  have u: "unat (i + 1) = Suc (unat i)" using unat_succ32''[OF lt p32] .
  have nz: "pb ! unat i \<noteq> 0" using Suc.prems(5) lt by simp
  have IH: "pkcs1_scan pb (i + 1) = Some (of_nat p)"
    by (rule Suc.IH) (use Suc.prems lt u in simp_all)
  show ?case
    using lt2 nz
    apply (subst pkcs1_scan.simps)
    apply (simp only: if_True if_False IH)
    done
qed

lemma pkcs1_enc_block_form:
  assumes l: "length fmt = 3 + cbTmp + length M" and ps: "length ps = cbTmp" and bs: "length bs = cbTmp"
  shows "memcpy ((memcpy (memcpy (fmt[0 := 0x00, 1 := 0x02]) 2 bs cbTmp) 2 ps cbTmp)[2 + cbTmp := 0x00])
            (3 + cbTmp) M (length M) = [0x00, 0x02] @ ps @ [0x00] @ M"
    and "region (memcpy (fmt[0 := 0x00, 1 := 0x02]) 2 bs cbTmp) 2 cbTmp = bs"
proof -
  obtain a0 a1 P z D where b: "fmt = a0 # a1 # P @ z # D" and P: "length P = cbTmp"
    and D: "length D = length M"
    using sig_block_shape[OF l] by blast
  have mb: "map (\<lambda>i. bs ! i) [0..<cbTmp] = bs" using bs map_nth[of bs] by simp
  have mp: "map (\<lambda>i. ps ! i) [0..<cbTmp] = ps" using ps map_nth[of ps] by simp
  show "memcpy ((memcpy (memcpy (fmt[0 := 0x00, 1 := 0x02]) 2 bs cbTmp) 2 ps cbTmp)[2 + cbTmp := 0x00])
            (3 + cbTmp) M (length M) = [0x00, 0x02] @ ps @ [0x00] @ M"
    using P D ps bs
    by (simp add: b memcpy_def list_update_append take_Cons' drop_Cons' mb mp map_nth)
  show "region (memcpy (fmt[0 := 0x00, 1 := 0x02]) 2 bs cbTmp) 2 cbTmp = bs"
    using P D bs
    by (simp add: b memcpy_def region_def take_Cons' drop_Cons' mb)
qed

lemma pkcs1_enc_apply_form:
  assumes a: "SymCryptRsaPkcs1ApplyEncryptionPadding R s M flags fmt = Some (SYMCRYPT_NO_ERROR, EM, s')"
  shows "flags = 0 \<and> length M + 11 \<le> length fmt \<and>
         (\<exists>ps. EM = [0x00, 0x02] @ ps @ [0x00] @ M \<and> length ps = length fmt - (length M + 3) \<and>
               (\<forall>b\<in>set ps. b \<noteq> 0))"
proof -
  define cbTmp where "cbTmp = length fmt - (length M + 3)"
  define bs where "bs = map (rnd_bytes R) [fst s..<fst s + cbTmp]"
  have ok: "flags = 0" "length M + 11 \<le> length fmt"
    using a by (auto simp: SymCryptRsaPkcs1ApplyEncryptionPadding_def Let_def split: if_splits)
  have l: "length fmt = 3 + cbTmp + length M" using ok by (simp add: cbTmp_def)
  have lbs: "length bs = cbTmp" by (simp add: bs_def)
  have r: "region (memcpy (fmt[0 := 0x00, 1 := 0x02]) 2 bs cbTmp) 2 cbTmp = bs"
    by (rule pkcs1_enc_block_form(2)[OF l lbs lbs])
  have r': "region (memcpy (fmt[0 := 0x00, Suc 0 := 0x02]) 2 bs cbTmp) 2 cbTmp = bs"
    using r by simp
  from a ok obtain ps s2 where
    n: "pkcs1_nonzero_ps R (fst s + cbTmp, Suc (snd s)) bs = Some (SYMCRYPT_NO_ERROR, ps, s2)"
    and e: "EM = memcpy ((memcpy (memcpy (fmt[0 := 0x00, 1 := 0x02]) 2 bs cbTmp) 2 ps cbTmp)[2 + cbTmp := 0x00])
            (3 + cbTmp) M (length M)"
    unfolding SymCryptRsaPkcs1ApplyEncryptionPadding_def SymCryptCallbackRandom_def
    by (auto simp: Let_def cbTmp_def[symmetric] bs_def[symmetric] r' PKCS_BLOCKTYPE_2_def
        split: if_splits option.splits prod.splits)
  from pkcs1_nonzero_ps_nonzero[OF n] have lps: "length ps = cbTmp" and nz: "\<forall>b\<in>set ps. b \<noteq> 0"
    by (simp_all add: lbs)
  have "EM = [0x00, 0x02] @ ps @ [0x00] @ M"
    unfolding e by (rule pkcs1_enc_block_form(1)[OF l lps lbs])
  with ok lps nz show ?thesis by (auto simp: cbTmp_def)
qed

lemma pkcs1_enc_remove_block:
  assumes ps: "\<forall>b\<in>set ps. b \<noteq> 0" and p32: "2 + length ps + 1 < 2 ^ 32"
  shows "SymCryptRsaPkcs1RemoveEncryptionPadding ([0x00, 0x02] @ ps @ [0x00] @ M) 0 pt =
    (case pt of
       None \<Rightarrow> Some (SYMCRYPT_NO_ERROR, Some (length M), None)
     | Some buf \<Rightarrow>
         if length buf < length M then Some (SYMCRYPT_BUFFER_TOO_SMALL, Some (length M), Some buf)
         else Some (SYMCRYPT_NO_ERROR, Some (length M), Some (M @ drop (length M) buf)))"
proof -
  define EM where "EM = [0x00, 0x02] @ ps @ [0x00] @ M"
  define p where "p = 2 + length ps"
  have lEM: "length EM = p + 1 + length M" by (simp add: EM_def p_def)
  have sc: "pkcs1_scan EM 2 = Some (of_nat p)"
  proof (rule pkcs1_scan_found[where d = "p - 2"])
    show "p < 2 ^ 32" using p32 by (simp add: p_def)
    show "p - unat (2 :: 32 word) = p - 2" by simp
    show "unat (2 :: 32 word) \<le> p" by (simp add: p_def)
    show "p < length EM" by (simp add: lEM)
    show "EM ! p = 0" by (simp add: EM_def p_def nth_append)
    show "\<forall>j. unat (2 :: 32 word) \<le> j \<and> j < p \<longrightarrow> EM ! j \<noteq> 0"
    proof (intro allI impI)
      fix j assume j: "unat (2 :: 32 word) \<le> j \<and> j < p"
      then obtain j' where j': "j = Suc (Suc j')" "j' < length ps"
        by (cases j; cases "j - 1") (auto simp: p_def)
      have "EM ! j = ps ! j'" using j' by (simp add: EM_def nth_append)
      moreover have "ps ! j' \<in> set ps" using j' by simp
      ultimately show "EM ! j \<noteq> 0" using ps by auto
    qed
  qed
  have pp: "p + 1 < 2 ^ 32" using p32 by (simp add: p_def)
  have up: "unat (of_nat p :: 32 word) = p" using pp by (simp add: unat_of_nat)
  have up1: "unat (of_nat p + 1 :: 32 word) = p + 1"
    using unat_succ32''[of "of_nat p" "p + 1"] up pp by simp
  have dr: "drop (p + 1) EM = M" by (simp add: EM_def p_def)
  have mc: "length M \<le> length buf \<Longrightarrow> memcpy buf 0 M (length M) = M @ drop (length M) buf" for buf
    using memcpy_prefix[of "length M" buf M "[]"] by simp
  have e0: "EM ! 0 = 0" "EM ! Suc 0 = 2" "0 < p" "drop (Suc p) EM = M"
    by (simp_all add: EM_def p_def)
  show ?thesis
    unfolding EM_def[symmetric] SymCryptRsaPkcs1RemoveEncryptionPadding_def
    by (cases pt) (simp_all add: Let_def sc up up1 dr lEM e0 PKCS_BLOCKTYPE_2_def mc)
qed


declare pkcs1_redraw.simps [code]

lemma test_enc_apply:
  "SymCryptRsaPkcs1ApplyEncryptionPadding test_random (0, 0) [0x01, 0x02, 0x03, 0x04, 0x05] 0
       (replicate 16 0xEE) =
     Some (SYMCRYPT_NO_ERROR,
           [0x00, 0x02, 0xA8, 0x55, 0xAA, 0xFF, 0x54, 0xA9, 0xFE, 0x53, 0x00, 0x01, 0x02, 0x03, 0x04, 0x05],
           (9, 2))"
  by code_simp

lemma pkcs1_nonzero_ps_id:
  "\<forall>b\<in>set bs. b \<noteq> 0 \<Longrightarrow> pkcs1_nonzero_ps R s bs = Some (SYMCRYPT_NO_ERROR, bs, s)"
proof (induction bs)
  case Nil
  show ?case by simp
next
  case (Cons b bs)
  then have b: "b \<noteq> 0" and IH: "pkcs1_nonzero_ps R s bs = Some (SYMCRYPT_NO_ERROR, bs, s)" by simp_all
  have r: "pkcs1_redraw R s b = Some (SYMCRYPT_NO_ERROR, b, s)"
    using b by (subst pkcs1_redraw.simps) simp
  show ?case by (simp add: r IH)
qed

lemma pkcs1_enc_apply_nonzero_source:
  assumes len: "length M + 11 \<le> length fmt"
    and ok: "rnd_result R (snd s) = SYMCRYPT_NO_ERROR"
    and bs: "bs = map (rnd_bytes R) [fst s..<fst s + (length fmt - (length M + 3))]"
    and nz: "\<forall>b\<in>set bs. b \<noteq> 0"
  shows "SymCryptRsaPkcs1ApplyEncryptionPadding R s M 0 fmt =
           Some (SYMCRYPT_NO_ERROR, [0x00, 0x02] @ bs @ [0x00] @ M,
                 (fst s + (length fmt - (length M + 3)), Suc (snd s)))"
proof -
  define cbTmp where "cbTmp = length fmt - (length M + 3)"
  have l: "length fmt = 3 + cbTmp + length M" using len by (simp add: cbTmp_def)
  have lbs: "length bs = cbTmp" by (simp add: bs cbTmp_def)
  have r: "region (memcpy (fmt[0 := 0x00, 1 := 0x02]) 2 bs cbTmp) 2 cbTmp = bs"
    by (rule pkcs1_enc_block_form(2)[OF l lbs lbs])
  have r': "region (memcpy (fmt[0 := 0x00, Suc 0 := 0x02]) 2 bs cbTmp) 2 cbTmp = bs"
    using r by simp
  have e: "memcpy ((memcpy (memcpy (fmt[0 := 0x00, 1 := 0x02]) 2 bs cbTmp) 2 bs cbTmp)[2 + cbTmp := 0x00])
            (3 + cbTmp) M (length M) = [0x00, 0x02] @ bs @ [0x00] @ M"
    by (rule pkcs1_enc_block_form(1)[OF l lbs lbs])
  have e': "memcpy ((memcpy (memcpy (fmt[0 := 0x00, Suc 0 := 0x02]) 2 bs cbTmp) 2 bs cbTmp)[Suc (Suc cbTmp) := 0x00])
            (3 + cbTmp) M (length M) = [0x00, 0x02] @ bs @ [0x00] @ M"
    using e by simp
  show ?thesis
    unfolding SymCryptRsaPkcs1ApplyEncryptionPadding_def SymCryptCallbackRandom_def
    using len ok
    by (simp add: Let_def cbTmp_def[symmetric] bs[unfolded cbTmp_def[symmetric], symmetric] r'
        pkcs1_nonzero_ps_id[OF nz] PKCS_BLOCKTYPE_2_def e')
qed

lemma pkcs1_enc_remove_wrap:
  assumes ps: "\<forall>b\<in>set ps. b \<noteq> 0" and p32: "length ps = 2 ^ 32 - 3"
  shows "SymCryptRsaPkcs1RemoveEncryptionPadding ([0x00, 0x02] @ ps @ [0x00] @ M) 0 pt =
    (case pt of
       None \<Rightarrow> Some (SYMCRYPT_NO_ERROR, Some (2 ^ 32 + length M), None)
     | Some buf \<Rightarrow>
         if length buf < 2 ^ 32 + length M
         then Some (SYMCRYPT_BUFFER_TOO_SMALL, Some (2 ^ 32 + length M), Some buf)
         else Some (SYMCRYPT_NO_ERROR, Some (2 ^ 32 + length M),
                    Some (memcpy buf 0 ([0x00, 0x02] @ ps @ [0x00] @ M) (2 ^ 32 + length M))))"
proof -
  define EM where "EM = [0x00, 0x02] @ ps @ [0x00] @ M"
  define p :: nat where "p = 2 ^ 32 - 1"
  have pl: "p = 2 + length ps" by (simp add: p_def p32)
  have lEM: "length EM = 2 ^ 32 + length M" by (simp add: EM_def p32)
  have sc: "pkcs1_scan EM 2 = Some (of_nat p)"
  proof (rule pkcs1_scan_found[where d = "p - 2"])
    show "p < 2 ^ 32" by (simp add: p_def)
    show "p - unat (2 :: 32 word) = p - 2" by simp
    show "unat (2 :: 32 word) \<le> p" by (simp add: pl)
    show "p < length EM" by (simp add: lEM p_def)
    show "EM ! p = 0" by (simp add: EM_def pl nth_append)
    show "\<forall>j. unat (2 :: 32 word) \<le> j \<and> j < p \<longrightarrow> EM ! j \<noteq> 0"
    proof (intro allI impI)
      fix j assume j: "unat (2 :: 32 word) \<le> j \<and> j < p"
      then obtain j' where j': "j = Suc (Suc j')" "j' < length ps"
        by (cases j; cases "j - 1") (auto simp: pl)
      have "EM ! j = ps ! j'" using j' by (simp add: EM_def nth_append)
      moreover have "ps ! j' \<in> set ps" using j' by simp
      ultimately show "EM ! j \<noteq> 0" using ps by auto
    qed
  qed
  have w: "(of_nat p :: 32 word) = - 1" by (simp add: p_def)
  have um: "unat (- 1 :: 32 word) = 4294967295"
    by (simp add: unsigned_minus_1_eq_mask mask_eq_exp_minus_1)
  have up: "unat (- 1 :: 32 word) < 2 ^ 32 + length M"
    unfolding um by simp
  have e0: "EM ! 0 = 0" "EM ! Suc 0 = 2" by (simp_all add: EM_def)
  have l2: "\<not> length EM < 2" by (simp add: lEM)
  show ?thesis
    unfolding EM_def[symmetric] SymCryptRsaPkcs1RemoveEncryptionPadding_def
    using up l2
    by (cases pt) (simp_all add: Let_def sc w lEM e0 PKCS_BLOCKTYPE_2_def del: unsigned_minus_1_eq_mask)
qed

lemma pkcs1_redraw_zero_step:
  assumes "rnd_result R (snd s) = SYMCRYPT_NO_ERROR"
  shows "pkcs1_redraw R s 0 = pkcs1_redraw R (fst s + 1, Suc (snd s)) (rnd_bytes R (fst s))"
  using assms by (subst pkcs1_redraw.simps) (simp add: SymCryptCallbackRandom_def)

lemma pkcs1_redraw_returns_zero:
  assumes ok: "\<forall>n. rnd_result R n = SYMCRYPT_NO_ERROR"
  shows "fst s \<le> q \<Longrightarrow> q - fst s = d \<Longrightarrow> rnd_bytes R q \<noteq> 0 \<Longrightarrow>
         \<exists>b' s'. pkcs1_redraw R s 0 = Some (SYMCRYPT_NO_ERROR, b', s')"
proof (induction d arbitrary: s)
  case 0
  then have q: "q = fst s" by simp
  have "pkcs1_redraw R s 0 = pkcs1_redraw R (fst s + 1, Suc (snd s)) (rnd_bytes R (fst s))"
    by (rule pkcs1_redraw_zero_step) (simp add: ok)
  also have "\<dots> = Some (SYMCRYPT_NO_ERROR, rnd_bytes R (fst s), (fst s + 1, Suc (snd s)))"
    using 0(3) q by (subst pkcs1_redraw.simps) simp
  finally show ?case by blast
next
  case (Suc d)
  have st: "pkcs1_redraw R s 0 = pkcs1_redraw R (fst s + 1, Suc (snd s)) (rnd_bytes R (fst s))"
    by (rule pkcs1_redraw_zero_step) (simp add: ok)
  show ?case
  proof (cases "rnd_bytes R (fst s) = 0")
    case True
    have "\<exists>b' s'. pkcs1_redraw R (fst s + 1, Suc (snd s)) 0 = Some (SYMCRYPT_NO_ERROR, b', s')"
      by (rule Suc.IH) (use Suc.prems in simp_all)
    then show ?thesis by (simp add: st True)
  next
    case False
    have "pkcs1_redraw R (fst s + 1, Suc (snd s)) (rnd_bytes R (fst s)) =
          Some (SYMCRYPT_NO_ERROR, rnd_bytes R (fst s), (fst s + 1, Suc (snd s)))"
      using False by (subst pkcs1_redraw.simps) simp
    then show ?thesis by (simp add: st)
  qed
qed

lemma pkcs1_redraw_returns:
  assumes ok: "\<forall>n. rnd_result R n = SYMCRYPT_NO_ERROR"
    and inf: "\<forall>p. \<exists>q\<ge>p. rnd_bytes R q \<noteq> 0"
  shows "\<exists>b' s'. pkcs1_redraw R s b = Some (SYMCRYPT_NO_ERROR, b', s')"
proof (cases "b = 0")
  case True
  from inf obtain q where "fst s \<le> q" "rnd_bytes R q \<noteq> 0" by blast
  then show ?thesis
    using pkcs1_redraw_returns_zero[OF ok, of s q "q - fst s"] True by simp
next
  case False
  then show ?thesis by (subst pkcs1_redraw.simps) simp
qed

lemma pkcs1_nonzero_ps_returns:
  assumes ok: "\<forall>n. rnd_result R n = SYMCRYPT_NO_ERROR"
    and inf: "\<forall>p. \<exists>q\<ge>p. rnd_bytes R q \<noteq> 0"
  shows "\<exists>ps s'. pkcs1_nonzero_ps R s bs = Some (SYMCRYPT_NO_ERROR, ps, s')"
proof (induction bs arbitrary: s)
  case Nil
  show ?case by simp
next
  case (Cons b bs)
  obtain b1 s1 where r: "pkcs1_redraw R s b = Some (SYMCRYPT_NO_ERROR, b1, s1)"
    using pkcs1_redraw_returns[OF ok inf, of s b] by blast
  obtain ps s2 where n: "pkcs1_nonzero_ps R s1 bs = Some (SYMCRYPT_NO_ERROR, ps, s2)"
    using Cons.IH[of s1] by blast
  show ?case by (simp add: r n)
qed

lemma pkcs1_enc_apply_returns:
  assumes len: "length M + 11 \<le> length fmt"
    and ok: "\<forall>n. rnd_result R n = SYMCRYPT_NO_ERROR"
    and inf: "\<forall>p. \<exists>q\<ge>p. rnd_bytes R q \<noteq> 0"
  shows "\<exists>EM s'. SymCryptRsaPkcs1ApplyEncryptionPadding R s M 0 fmt = Some (SYMCRYPT_NO_ERROR, EM, s')"
proof -
  define cbTmp where "cbTmp = length fmt - (length M + 3)"
  define bs where "bs = map (rnd_bytes R) [fst s..<fst s + cbTmp]"
  define b2 where "b2 = memcpy (fmt[0 := 0x00, Suc 0 := PKCS_BLOCKTYPE_2]) 2 bs cbTmp"
  obtain ps s2 where n: "pkcs1_nonzero_ps R (fst s + cbTmp, Suc (snd s)) (region b2 2 cbTmp) =
      Some (SYMCRYPT_NO_ERROR, ps, s2)"
    using pkcs1_nonzero_ps_returns[OF ok inf] by blast
  show ?thesis
    unfolding SymCryptRsaPkcs1ApplyEncryptionPadding_def SymCryptCallbackRandom_def
    using len ok
    by (simp add: Let_def cbTmp_def[symmetric] bs_def[symmetric] b2_def[symmetric] n)
qed

lemma test_random_nonzero: "\<forall>p. \<exists>q\<ge>p. rnd_bytes test_random q \<noteq> 0"
proof
  fix p :: nat
  define n where "n = (256 * p + 1) * 85"
  have e: "n = 256 * (85 * p) + 85" by (simp add: n_def algebra_simps)
  have m: "n mod 256 = 85" unfolding e mod_mult_self4 by simp
  have "unat (of_nat n :: byte) = n mod 2 ^ LENGTH(8)" by (rule unat_of_nat)
  then have "unat (of_nat n :: byte) = 85" using m by simp
  then have "(of_nat n :: byte) \<noteq> 0" by (metis unat_0 zero_neq_numeral)
  moreover have "rnd_bytes test_random (256 * p + 1) = of_nat n"
    unfolding n_def test_random_def by simp
  ultimately have "rnd_bytes test_random (256 * p + 1) \<noteq> 0" by simp
  moreover have "p \<le> 256 * p + 1" by simp
  ultimately show "\<exists>q\<ge>p. rnd_bytes test_random q \<noteq> 0" by blast
qed

section \<open>PSS signature padding: the form of the block\<close>

declare mgf_loop.simps [code] xor_loop.simps [code] xor_loop_inplace.simps [code] pss_padding2_loop.simps [code]

lemma byte_ff: "(0xff :: byte) = - 1"
  by simp

lemma pss_top_bits_clear:
  "z \<le> 8 \<Longrightarrow> (x AND drop_bit z (0xff :: byte)) AND push_bit (8 - z) 0xff = 0"
  unfolding byte_ff by (rule bit_word_eqI) (auto simp: bit_simps)

lemma pss_mask_xor: "(((a :: byte) AND k) XOR b) AND k = (a XOR b) AND k"
  by (rule bit_word_eqI) (auto simp: bit_simps)

lemma pss_one_kept: "z \<le> 7 \<Longrightarrow> (1 :: byte) AND drop_bit z 0xff = 1"
  unfolding byte_ff by (rule bit_word_eqI) (auto simp: bit_simps)

lemma pss_zero_bits:
  assumes "1 \<le> (n :: nat)" "em = (n + 7) div 8 - (if n mod 8 = 1 then 1 else 0)"
  shows "n \<le> 8 * em + 1 \<and> 8 * em + 1 - n \<le> 7 \<and> em = (n + 6) div 8"
proof -
  define q r where "q = n div 8" and "r = n mod 8"
  have n: "n = 8 * q + r" and r: "r < 8" and m: "n mod 8 = r" by (simp_all add: q_def r_def)
  have d7: "(n + 7) div 8 = q + (r + 7) div 8"
    unfolding n add.assoc by (rule div_mult_self4) simp
  have d6: "(n + 6) div 8 = q + (r + 6) div 8"
    unfolding n add.assoc by (rule div_mult_self4) simp
  have e: "em = q + (r + 7) div 8 - (if r = 1 then 1 else 0)" 
    using assms(2) unfolding d7 m .
  from r consider "r = 0" | "r = 1" | "r = 2" | "r = 3" | "r = 4" | "r = 5" | "r = 6" | "r = 7"
    by arith
  then show ?thesis
    unfolding d6
  proof cases
    case 1
    with assms n have "0 < q" by simp
    with 1 e n show "n \<le> 8 * em + 1 \<and> 8 * em + 1 - n \<le> 7 \<and> em = q + (r + 6) div 8" by simp
  qed (use e n in simp_all)
qed

lemma pss_MPrime_form:
  assumes "length X = 8 + length h + length s"
  shows "memcpy (memcpy (SymCryptWipe X 0 8) 8 h (length h)) (8 + length h) s (length s) =
         replicate 8 0x00 @ h @ s"
proof -
  obtain A r1 where 1: "X = A @ r1" "length A = 8" "length r1 = length h + length s"
    using split_at[of 8 X] assms by auto
  obtain B C where 2: "r1 = B @ C" "length B = length h" "length C = length s"
    using split_at[of "length h" r1] 1 by auto
  show ?thesis
    using 1(2) 2(2,3)
    by (simp add: 1(1) 2(1) SymCryptWipe_def memcpy_def memset_def map_nth)
qed

lemma pss_DB_form:
  assumes "length Y = p + 1 + length s" and that: "length X = 8 + a"
  shows "memcpy ((SymCryptWipe Y 0 p)[p := 0x01]) (p + 1) (drop (8 + a) (X @ s)) (length s) =
         replicate p 0x00 @ [0x01] @ s"
proof -
  obtain A r1 where 1: "Y = A @ r1" "length A = p" "length r1 = 1 + length s"
    using split_at[of p Y] assms by auto
  obtain c C where 2: "r1 = c # C" "length C = length s"
    using split_hd[of r1] 1 by auto
  show ?thesis
    using 1(2) 2(2) that
    by (simp add: 1(1) 2(1) SymCryptWipe_def memcpy_def memset_def map_nth list_update_append)
qed


lemma pss_verify_encode:
  assumes h: "0 < resultSize H"
    and em: "resultSize H + length salt + 2 \<le> em" and em32: "em < 2 ^ 32"
    and mp: "8 + length mHash + length salt < 2 ^ 64"
    and z: "unat nBits \<le> 8 * em + 1" "8 * em + 1 - unat nBits \<le> 7"
    and B: "B = pss_encode H mHash salt em (8 * em + 1 - unat nBits)"
    and f0: "fmt0 = (if unat nBits mod 8 = 1 then 0x00 # B else B)"
    and scr: "stateSize H + (em - (resultSize H + 1)) + (8 + length mHash + length salt) + resultSize H
                \<le> length scr"
  shows "SymCryptRsaPssVerifySignaturePadding mHash H (length salt) (Some fmt0) nBits 0 scr =
           Some SYMCRYPT_NO_ERROR"
proof -
  define hl where "hl = resultSize H"
  define sl where "sl = length salt"
  define cbDB where "cbDB = em - (hl + 1)"
  define p where "p = cbDB - sl - 1"
  define zb where "zb = 8 * em + 1 - unat nBits"
  define K where "K = drop_bit zb (0xff :: byte)"
  define MPrime where "MPrime = replicate 8 (0x00 :: byte) @ mHash @ salt"
  define hd where "hd = map (\<lambda>j. digest H MPrime ! j) [0..<hl]"
  define DB where "DB = replicate p (0x00 :: byte) @ [0x01] @ salt"
  define msk where "msk = mgf1_mask H hd cbDB"
  define maskedDB where "maskedDB = xor_bytes DB msk"
  define mDB where "mDB = maskedDB[0 := maskedDB ! 0 AND K]"
  have hl: "0 < hl" using h by (simp add: hl_def)
  have em': "hl + sl + 2 \<le> em" using em by (simp add: hl_def sl_def)
  have cbDB: "cbDB = p + 1 + sl" using em' by (simp add: cbDB_def p_def)
  have eme: "em = cbDB + hl + 1" using em' by (simp add: cbDB_def)
  have lDB: "length DB = cbDB" by (simp add: DB_def cbDB sl_def)
  have lmsk: "length msk = cbDB" using h by (simp add: msk_def mgf1_mask_length)
  have lmd: "length maskedDB = cbDB" by (simp add: maskedDB_def xor_bytes_length lDB lmsk)
  have lm: "length mDB = cbDB" by (simp add: mDB_def lmd)
  have lhd: "length hd = hl" by (simp add: hd_def)
  have Bf: "B = mDB @ hd @ [0xbc]"
    by (simp add: B pss_encode_def Let_def mDB_def maskedDB_def msk_def DB_def hd_def MPrime_def
        K_def zb_def p_def cbDB_def hl_def sl_def)
  have lB: "length B = em" by (simp add: Bf lm lhd eme)
  have zs: "size_sub (8 * em + 1) (unat nBits) = zb"
    using z(1) em32 by (simp add: size_sub_ge zb_def)
  have z8: "size_sub 8 zb = 8 - zb" using z(2) by (simp add: size_sub_ge zb_def)
  have c0: "0 < cbDB" by (simp add: cbDB)
  have B0: "B ! 0 = maskedDB ! 0 AND K" using c0 lm lmd by (simp add: Bf nth_append mDB_def)
  have t1: "B ! 0 AND push_bit (8 - zb) (0xff :: byte) = 0"
    unfolding B0 K_def by (rule pss_top_bits_clear) (use z(2) in \<open>simp add: zb_def\<close>)
  have t2: "B ! (em - 1) = 0xbc" using lm lhd by (simp add: Bf eme nth_append)
  have t3: "\<not> em < (hl + sl + 2) mod 2 ^ 64"
    using em' mod_less_eq_dividend[of "hl + sl + 2" "2 ^ 64"] by linarith
  have t123: "\<not> (B ! 0 AND push_bit (8 - zb) (0xff :: byte) \<noteq> 0 \<or> B ! (em - 1) \<noteq> 0xbc \<or>
               em < (hl + sl + 2) mod 2 ^ 64)"
    using t1 t2 t3 by blast
  have cs: "size_sub em (hl + 1) = cbDB" using em' em32 by (simp add: size_sub_ge cbDB_def)
  have cs': "size_sub em (Suc hl) = cbDB" using cs by simp
  have mpm: "(8 + length mHash + sl) mod 2 ^ 64 = 8 + length mHash + sl"
    using mp by (simp add: sl_def)
  have scr': "stateSize H + cbDB + (8 + length mHash + sl) + hl \<le> length scr"
    using scr by (simp add: hl_def sl_def cbDB_def)
  have rB: "region B cbDB hl = hd"
    using region_append2[of mDB cbDB hd hl "[0xbc]"] lm lhd by (simp add: Bf)
  have m1: "SymCryptRsaPaddingMaskGeneration H hd (region scr (stateSize H) cbDB) = Some msk"
    using h scr' by (simp add: mgf_correct region_length msk_def)
  have c32: "cbDB < 2 ^ 32" using em32 eme by simp
  have x1: "xor_loop_inplace cbDB B 0 msk = Some (map (\<lambda>j. B ! j XOR msk ! j) [0..<cbDB])"
    using xor_loop_inplace_correct[OF c32, of 0 cbDB msk B] lmsk by simp
  have d: "(map (\<lambda>j. B ! j XOR msk ! j) [0..<cbDB])
             [0 := map (\<lambda>j. B ! j XOR msk ! j) [0..<cbDB] ! 0 AND K] = DB"
  proof (rule nth_equalityI)
    show "length ((map (\<lambda>j. B ! j XOR msk ! j) [0..<cbDB])
             [0 := map (\<lambda>j. B ! j XOR msk ! j) [0..<cbDB] ! 0 AND K]) = length DB"
      by (simp add: lDB)
  next
    fix i assume "i < length ((map (\<lambda>j. B ! j XOR msk ! j) [0..<cbDB])
             [0 := map (\<lambda>j. B ! j XOR msk ! j) [0..<cbDB] ! 0 AND K])"
    then have i: "i < cbDB" by simp
    have DK: "DB ! 0 AND K = DB ! 0"
    proof (cases p)
      case 0
      then have "DB ! 0 = 1" by (simp add: DB_def)
      then show ?thesis unfolding K_def using pss_one_kept[of zb] z(2) by (simp add: zb_def)
    next
      case (Suc q)
      then have "DB ! 0 = 0" by (simp add: DB_def)
      then show ?thesis by simp
    qed
    show "(map (\<lambda>j. B ! j XOR msk ! j) [0..<cbDB])
             [0 := map (\<lambda>j. B ! j XOR msk ! j) [0..<cbDB] ! 0 AND K] ! i = DB ! i"
    proof (cases i)
      case 0
      have "((maskedDB ! 0 AND K) XOR msk ! 0) AND K = ((DB ! 0 XOR msk ! 0) XOR msk ! 0) AND K"
        using c0 lDB lmsk by (simp add: maskedDB_def xor_bytes_nth pss_mask_xor)
      also have "\<dots> = DB ! 0" by (simp add: xor_cancel DK)
      finally show ?thesis using 0 c0 by (simp add: B0)
    next
      case (Suc q)
      have "B ! i = maskedDB ! i" using i Suc lm by (simp add: Bf nth_append mDB_def)
      also have "\<dots> = DB ! i XOR msk ! i" using i lDB lmsk by (simp add: maskedDB_def xor_bytes_nth)
      finally show ?thesis using i Suc by (simp add: xor_cancel)
    qed
  qed
  have ps: "size_sub (size_sub cbDB sl) 1 = p"
    using c32 by (simp add: size_sub_ge cbDB)
  have ps2: "size_sub (p + 1) 1 = p"
    using c32 cbDB by (simp add: size_sub_ge)
  have ss: "size_sub cbDB sl = p + 1"
    using c32 by (simp add: size_sub_ge cbDB)
  have p2: "pss_padding2_loop p DB 0 = Some True"
  proof -
    have "p < 2 ^ 32" using c32 cbDB by simp
    from pss_padding2_loop_correct[OF this, of 0 p DB]
    show ?thesis by (simp add: DB_def nth_append)
  qed
  have one: "DB ! p = 0x01" by (simp add: DB_def nth_append)
  have dr: "drop (p + 1) DB = salt" by (simp add: DB_def)
  have mpf: "memcpy (memcpy (SymCryptWipe (region scr (stateSize H + cbDB) (8 + length mHash + sl)) 0 8)
                8 mHash (length mHash)) (8 + length mHash) salt sl = MPrime"
    unfolding MPrime_def sl_def
    by (rule pss_MPrime_form) (use scr' in \<open>simp add: region_length sl_def\<close>)
  have hc: "SymCryptHash H MPrime (region scr (stateSize H + cbDB + (8 + length mHash + sl)) hl) 0 hl = hd"
    unfolding hd_def by (rule hash_copy) (use scr' in \<open>simp add: region_length\<close>)
  have eq: "SymCryptEqual (drop cbDB B) hd hl"
    using lm lhd by (simp add: SymCryptEqual_def Bf)
  have fm: "(if unat nBits mod 8 = 1 then drop 1 fmt0 else fmt0) = B" by (simp add: f0)
  have c1: "\<not> (unat nBits mod 8 = 1 \<and> fmt0 ! 0 \<noteq> 0)" by (simp add: f0)
  have ne: "length fmt0 \<noteq> 0" using lB em' by (auto simp: f0)
  show ?thesis
    unfolding SymCryptRsaPssVerifySignaturePadding_def
    apply (simp only: Let_def SymCryptHashResultSize_def SymCryptHashStateSize_def hl_def[symmetric]
        sl_def[symmetric] option.case fm lB zs z8 cs mpm rB m1 x1 K_def[symmetric] d ss ps2 p2 dr mpf hc
        Option.bind_lunit)
    apply (subst if_not_P, use ne in simp)
    apply (subst if_not_P, rule c1)
    apply (subst if_not_P, rule t123)
    apply (subst if_not_P, simp add: scr')
    apply (simp add: one eq)
    done
qed


lemma pss_apply_encode:
  assumes h: "0 < resultSize H"
    and em: "resultSize H + length salt + 2 \<le> em" and em32: "em < 2 ^ 32"
    and lf: "length fmt = em + (if unat nBits mod 8 = 1 then 1 else 0)"
    and z: "unat nBits \<le> 8 * em + 1"
    and scr: "stateSize H + (8 + length mHash + length salt) + (em - (resultSize H + 1)) * 2
                \<le> length scr"
  shows "SymCryptRsaPssApplySignaturePadding R s mHash H (Some salt) (length salt) nBits 0 (Some fmt) scr =
           Some (SYMCRYPT_NO_ERROR,
                 Some (replicate (if unat nBits mod 8 = 1 then 1 else 0) 0x00 @
                       pss_encode H mHash salt em (8 * em + 1 - unat nBits)), s)"
proof -
  define hl where "hl = resultSize H"
  define sl where "sl = length salt"
  define off :: nat where "off = (if unat nBits mod 8 = 1 then 1 else 0)"
  define fmt1 where "fmt1 = (if unat nBits mod 8 = 1 then fmt[0 := 0x00] else fmt)"
  define cbDB where "cbDB = em - (hl + 1)"
  define p where "p = cbDB - sl - 1"
  define zb where "zb = 8 * em + 1 - unat nBits"
  define K where "K = drop_bit zb (0xff :: byte)"
  define MPrime where "MPrime = replicate 8 (0x00 :: byte) @ mHash @ salt"
  define hd where "hd = map (\<lambda>j. digest H MPrime ! j) [0..<hl]"
  define DB where "DB = replicate p (0x00 :: byte) @ [0x01] @ salt"
  define msk where "msk = mgf1_mask H hd cbDB"
  define maskedDB where "maskedDB = xor_bytes DB msk"
  define mDB where "mDB = maskedDB[0 := maskedDB ! 0 AND K]"
  define B where "B = pss_encode H mHash salt em zb"
  have hl: "0 < hl" using h by (simp add: hl_def)
  have em': "hl + sl + 2 \<le> em" using em by (simp add: hl_def sl_def)
  have cbDB: "cbDB = p + 1 + sl" using em' by (simp add: cbDB_def p_def)
  have eme: "em = cbDB + hl + 1" using em' by (simp add: cbDB_def)
  have lDB: "length DB = cbDB" by (simp add: DB_def cbDB sl_def)
  have lmsk: "length msk = cbDB" using h by (simp add: msk_def mgf1_mask_length)
  have lmd: "length maskedDB = cbDB" by (simp add: maskedDB_def xor_bytes_length lDB lmsk)
  have lm: "length mDB = cbDB" by (simp add: mDB_def lmd)
  have lhd: "length hd = hl" by (simp add: hd_def)
  have c0: "0 < cbDB" by (simp add: cbDB)
  have c32: "cbDB < 2 ^ 32" using em32 eme by simp
  have Bf: "B = mDB @ hd @ [0xbc]"
    by (simp add: B_def pss_encode_def Let_def mDB_def maskedDB_def msk_def DB_def hd_def MPrime_def
        K_def p_def cbDB_def hl_def sl_def)
  have lf': "length fmt = em + off" using lf by (simp add: off_def)
  have lfo: "length fmt - off = em" using lf' by simp
  have ne: "length fmt \<noteq> 0" using lf' em' by simp
  have lf1: "length fmt1 = off + cbDB + hl + 1" using lf' eme by (simp add: fmt1_def)
  obtain pre fa fh fl where f1: "fmt1 = pre @ fa @ fh @ [fl]" "length pre = off" "length fa = cbDB"
    "length fh = hl"
  proof -
    obtain pre r1 where 1: "fmt1 = pre @ r1" "length pre = off" "length r1 = cbDB + hl + 1"
      using split_at[of off fmt1] lf1 by auto
    obtain fa r2 where 2: "r1 = fa @ r2" "length fa = cbDB" "length r2 = hl + 1"
      using split_at[of cbDB r1] 1 by auto
    obtain fh r3 where 3: "r2 = fh @ r3" "length fh = hl" "length r3 = 1"
      using split_at[of hl r2] 2 by auto
    obtain fl where 4: "r3 = [fl]" using 3(3) by (cases r3) auto
    show ?thesis using that[of pre fa fh fl] 1 2 3 4 by simp
  qed
  have pre: "pre = replicate off 0x00"
  proof (cases "unat nBits mod 8 = 1")
    case True
    then have o: "off = 1" by (simp add: off_def)
    then obtain x where x: "pre = [x]" using f1(2) by (cases pre) auto
    have "fmt1 ! 0 = 0" using True ne by (simp add: fmt1_def)
    then show ?thesis using x o by (simp add: f1(1))
  next
    case False
    then show ?thesis using f1(2) by (simp add: off_def)
  qed
  have scr': "stateSize H + (8 + length mHash + sl) + cbDB * 2 \<le> length scr"
    using scr by (simp add: hl_def sl_def cbDB_def)
  have mpf: "memcpy (memcpy (SymCryptWipe (region scr (stateSize H) (8 + length mHash + sl)) 0 8)
                8 mHash (length mHash)) (8 + length mHash) salt sl = MPrime"
    unfolding MPrime_def sl_def
    by (rule pss_MPrime_form) (use scr' in \<open>simp add: region_length sl_def\<close>)
  have hsh: "SymCryptHash H MPrime fmt1 (off + cbDB) hl = pre @ fa @ hd @ [fl]"
    using f1(2,3,4) by (simp add: SymCryptHash_def memcpy_def f1(1) hd_def)
  have dbf: "memcpy ((SymCryptWipe (region scr (stateSize H + (8 + length mHash + sl)) cbDB) 0 p)[p := 0x01])
                (p + 1) (drop (8 + length mHash) MPrime) sl = DB"
  proof -
    have "memcpy ((SymCryptWipe (region scr (stateSize H + (8 + length mHash + sl)) cbDB) 0 p)[p := 0x01])
                (p + 1) (drop (8 + length mHash) ((replicate 8 0x00 @ mHash) @ salt)) (length salt) =
          replicate p 0x00 @ [0x01] @ salt"
      by (rule pss_DB_form) (use scr' cbDB in \<open>simp_all add: region_length sl_def\<close>)
    then show ?thesis by (simp add: MPrime_def DB_def sl_def)
  qed
  have rh: "region (pre @ fa @ hd @ [fl]) (off + cbDB) hl = hd"
    using region_append2[of "pre @ fa" "off + cbDB" hd hl "[fl]"] f1 lhd by simp
  have m1: "SymCryptRsaPaddingMaskGeneration H hd
              (region scr (stateSize H + (8 + length mHash + sl) + cbDB) cbDB) = Some msk"
    using h scr' by (simp add: mgf_correct region_length msk_def)
  have x1: "xor_loop cbDB DB 0 msk off 0 (pre @ fa @ hd @ [fl]) = Some (pre @ maskedDB @ hd @ [fl])"
  proof -
    have "map (\<lambda>j. DB ! (0 + j) XOR msk ! j) [0..<cbDB] = xor_bytes (region DB 0 cbDB) msk"
      by (rule map_xor_region) (simp_all add: lDB lmsk)
    moreover have "region DB 0 cbDB = DB" by (simp add: region_def lDB)
    ultimately have "map (\<lambda>j. DB ! (0 + j) XOR msk ! j) [0..<cbDB] = maskedDB"
      by (simp add: maskedDB_def)
    then show ?thesis
      using xor_loop_0[OF c32, of off "pre @ fa @ hd @ [fl]" DB 0 msk] f1 lhd
      by simp
  qed
  have zs: "size_sub (8 * em + 1) (unat nBits) = zb"
    using z em32 by (simp add: size_sub_ge zb_def)
  have fin: "((pre @ maskedDB @ hd @ [fl])[off := (pre @ maskedDB @ hd @ [fl]) ! off AND K])
               [off + (em - 1) := 0xbc] = replicate off 0x00 @ B"
    using f1(2) lmd lhd c0
    by (simp add: Bf pre[symmetric] eme nth_append list_update_append mDB_def)
  show ?thesis
    unfolding SymCryptRsaPssApplySignaturePadding_def
    apply (simp only: Let_def SymCryptHashResultSize_def SymCryptHashStateSize_def hl_def[symmetric]
        sl_def[symmetric] off_def[symmetric] fmt1_def[symmetric] option.case prod.case lfo
        cbDB_def[symmetric] p_def[symmetric] mpf hsh dbf rh m1 x1 zs K_def[symmetric] fin
        zb_def[symmetric] B_def[symmetric] Option.bind_lunit)
    apply (subst if_not_P, rule ne)
    apply (subst if_not_P, use em' in simp)
    apply (subst if_not_P, use scr' in simp)
    apply simp
    done
qed


lemma pss_encode_length:
  assumes "0 < resultSize H" "resultSize H + length salt + 2 \<le> em"
  shows "length (pss_encode H mHash salt em z) = em"
  using assms by (simp add: pss_encode_def Let_def xor_bytes_length mgf1_mask_length)

lemma pss_verify_leading_byte:
  assumes "unat nBits mod 8 = 1" "blk ! 0 \<noteq> 0"
  shows "SymCryptRsaPssVerifySignaturePadding h H sLen (Some blk) nBits flags scr =
           Some SYMCRYPT_INVALID_ARGUMENT"
  using assms by (simp add: SymCryptRsaPssVerifySignaturePadding_def Let_def)

lemma test_pss_apply:
  "SymCryptRsaPssApplySignaturePadding test_random (0, 0) [0xAB, 0xAB] test_hash (Some [0xCD, 0xCD])
       (length [0xCD, 0xCD :: byte]) 49 0 (Some (replicate 7 0xEE)) (replicate 22 0x00) =
     Some (SYMCRYPT_NO_ERROR, Some [0x00, 0x7F, 0x1A, 0xB2, 0xD7, 0x5A, 0xBC], (0, 0))"
  by code_simp

section \<open>The claims on the PKCS\#1 v1.5 signature padding\<close>

text \<open>
  Claim C1, at the input where the code departs from it. With an OID array that is not
  \<open>NULL\<close> and holds no entry (\<open>nOIDCount = 0\<close>) and \<open>flags = 0\<close>,
  \<open>SymCryptRsaPkcs1VerifySignaturePadding\<close> returns \<open>SYMCRYPT_NO_ERROR\<close> without
  checking the block: the loop makes no pass, \<open>scError\<close> keeps its initial value, and
  the retry with \<open>SYMCRYPT_FLAG_RSA_PKCS1_NO_ASN1\<close> is not taken because the pointer is
  not \<open>NULL\<close>. On the block of 40 zero bytes the single check against the padding
  without ASN.1 fails with \<open>SYMCRYPT_SIGNATURE_VERIFICATION_FAILURE\<close>.
\<close>

theorem pkcs1_verify_empty_oid_array_accepts:
  "SymCryptRsaPkcs1VerifySignaturePadding (replicate 20 0xAB) (Some []) 0 (replicate 40 0x00) 0
       (replicate 40 0x00) = Some (SYMCRYPT_NO_ERROR, replicate 40 0x00) \<and>
   fst (SymCryptRsaPkcs1CheckSignaturePadding (replicate 20 0xAB) None 0 (replicate 40 0x00)
      SYMCRYPT_FLAG_RSA_PKCS1_NO_ASN1 (replicate 40 0x00)) = SYMCRYPT_SIGNATURE_VERIFICATION_FAILURE"
proof -
  have "SymCryptRsaPkcs1ApplySignaturePadding (replicate 20 0xAB) None 0 SYMCRYPT_FLAG_RSA_PKCS1_NO_ASN1 (replicate 40 0) =
      (SYMCRYPT_NO_ERROR, [0x00, 0x01] @ replicate 17 0xff @ [0x00] @ replicate 20 0xAB)"
    by (simp add: sig_apply_form pkcs1_sig_T_def Let_def SYMCRYPT_FLAG_RSA_PKCS1_NO_ASN1_def)
  moreover have "([0x00, 0x01] @ replicate 17 0xff @ [0x00] @ replicate 20 0xAB) ! 1 \<noteq> replicate 40 (0x00::byte) ! 1"
    by simp
  then have "[0x00, 0x01] @ replicate 17 0xff @ [0x00] @ replicate 20 0xAB \<noteq> replicate 40 (0x00::byte)"
    by metis
  ultimately show ?thesis
    by (simp add: SymCryptRsaPkcs1VerifySignaturePadding_def pkcs1_verify_loop.simps
        SymCryptRsaPkcs1CheckSignaturePadding_def Let_def SymCryptWipe_def memset_def SymCryptEqual_def)
qed

text \<open>
  Claim C6. With \<open>SYMCRYPT_FLAG_RSA_PKCS1_NO_ASN1\<close> clear and an OID supplied (pointer
  not \<open>NULL\<close>, \<open>oLen > 0\<close> bytes), \<open>SymCryptRsaPkcs1ApplySignaturePadding\<close> returns
  \<open>SYMCRYPT_INVALID_ARGUMENT\<close> when \<open>tLen = 6 + oLen + hLen\<close> exceeds \<open>0x80\<close>, when
  \<open>k < 3 + 8 + tLen\<close>, or when an unrecognized flag bit is set; otherwise it returns
  \<open>SYMCRYPT_NO_ERROR\<close> and the block is
  \<open>0x00 || 0x01 || PS || 0x00 || 0x30 || tLen - 2 || 0x30 || oLen || OID || 0x04 || hLen || hash\<close>
  with \<open>PS\<close> made of \<open>k - 3 - tLen\<close> bytes \<open>0xFF\<close>.
\<close>

theorem pkcs1_sig_apply_digest_info:
  assumes "flags AND SYMCRYPT_FLAG_RSA_PKCS1_NO_ASN1 = 0" and "0 < oLen" and "length oid = oLen"
  shows "SymCryptRsaPkcs1ApplySignaturePadding hash (Some oid) oLen flags buf =
     (let hLen = length hash; k = length buf; tLen = 6 + oLen + hLen in
      if tLen > 0x80 \<or> k < 3 + 8 + tLen \<or> flags AND NOT SYMCRYPT_FLAG_RSA_PKCS1_NO_ASN1 \<noteq> 0
      then (SYMCRYPT_INVALID_ARGUMENT, buf)
      else (SYMCRYPT_NO_ERROR,
            [0x00, 0x01] @ replicate (k - 3 - tLen) 0xff @ [0x00] @
            ([0x30, of_nat (tLen - 2), 0x30, of_nat oLen] @ oid @ [0x04, of_nat hLen] @ hash)))"
proof -
  have "map (\<lambda>i. oid ! i) [0..<oLen] = oid" using assms(3) by (metis map_nth)
  moreover have "(of_nat (6 + oLen + length hash) - 2 :: byte) = of_nat (6 + oLen + length hash - 2)"
    by simp
  ultimately show ?thesis
    using assms
    by (auto simp add: sig_apply_form pkcs1_sig_T_def Let_def)
qed

theorem pkcs1_sig_apply_digest_info_witness:
  "(0 :: 32 word) AND SYMCRYPT_FLAG_RSA_PKCS1_NO_ASN1 = 0 \<and> (0::nat) < 13 \<and>
   length (the (pbOID (SymCryptSha256OidList ! 0))) = 13 \<and>
   SymCryptRsaPkcs1ApplySignaturePadding (replicate 32 0x00) (pbOID (SymCryptSha256OidList ! 0)) 13 0
       (replicate 256 0xEE) =
     (SYMCRYPT_NO_ERROR,
      [0x00, 0x01] @ replicate 202 0xff @
      [0x00, 0x30, 0x31, 0x30, 0x0D, 0x06, 0x09, 0x60, 0x86, 0x48, 0x01, 0x65, 0x03, 0x04, 0x02, 0x01,
       0x05, 0x00, 0x04, 0x20] @ replicate 32 0x00)"
  using pkcs1_sig_apply_digest_info[of 0 13
          "[0x06, 0x09, 0x60, 0x86, 0x48, 0x01, 0x65, 0x03, 0x04, 0x02, 0x01, 0x05, 0x00]"
          "replicate 32 0x00" "replicate 256 0xEE"]
  by (simp add: SymCryptSha256OidList_def SYMCRYPT_FLAG_RSA_PKCS1_NO_ASN1_def)

text \<open>
  Claim C9. \<open>SymCryptRsaPkcs1ApplySignaturePadding\<close> is deterministic. It takes no
  random source (the source makes no call of \<open>SymCryptCallbackRandom\<close> in it), and its
  result does not depend on what the output buffer held before the call: two calls with
  the same hash, OID, flags and block length return the same error code, and when that
  is \<open>SYMCRYPT_NO_ERROR\<close> they leave the same block of \<open>k\<close> bytes.
\<close>

theorem pkcs1_sig_apply_deterministic:
  assumes "length b1 = length b2"
  shows "fst (SymCryptRsaPkcs1ApplySignaturePadding h oid n f b1) =
         fst (SymCryptRsaPkcs1ApplySignaturePadding h oid n f b2) \<and>
         (fst (SymCryptRsaPkcs1ApplySignaturePadding h oid n f b1) = SYMCRYPT_NO_ERROR \<longrightarrow>
            snd (SymCryptRsaPkcs1ApplySignaturePadding h oid n f b1) =
            snd (SymCryptRsaPkcs1ApplySignaturePadding h oid n f b2) \<and>
            length (snd (SymCryptRsaPkcs1ApplySignaturePadding h oid n f b1)) = length b1)"
  using assms by (auto simp add: sig_apply_form Let_def)

theorem pkcs1_sig_apply_deterministic_witness:
  "length (replicate 40 (0x00 :: byte)) = length (replicate 40 (0xEE :: byte)) \<and>
   fst (SymCryptRsaPkcs1ApplySignaturePadding (replicate 20 0xAB) None 0 0 (replicate 40 0x00)) = SYMCRYPT_NO_ERROR \<and>
   snd (SymCryptRsaPkcs1ApplySignaturePadding (replicate 20 0xAB) None 0 0 (replicate 40 0x00)) =
   snd (SymCryptRsaPkcs1ApplySignaturePadding (replicate 20 0xAB) None 0 0 (replicate 40 0xEE))"
proof -
  have l: "length (replicate 40 (0x00 :: byte)) = length (replicate 40 (0xEE :: byte))" by simp
  have "fst (SymCryptRsaPkcs1ApplySignaturePadding (replicate 20 0xAB) None 0 0 (replicate 40 0x00)) = SYMCRYPT_NO_ERROR"
    by (simp add: sig_apply_form pkcs1_sig_T_def Let_def SYMCRYPT_FLAG_RSA_PKCS1_NO_ASN1_def)
  then show ?thesis
    using pkcs1_sig_apply_deterministic[OF l, of "replicate 20 0xAB" None 0 0] l by simp
qed

text \<open>
  Claim C10. \<open>SymCryptRsaPkcs1CheckSignaturePadding\<close> applies the padding to the wiped
  scratch buffer. When that fails, the check returns the error of the padding, which is
  \<open>SYMCRYPT_INVALID_ARGUMENT\<close>; it returns
  \<open>SYMCRYPT_SIGNATURE_VERIFICATION_FAILURE\<close> exactly when the padding succeeds and
  \<open>SymCryptEqual\<close> of the padded block and the observed block fails. The scratch
  buffer has at least \<open>cbPKCS1Format\<close> bytes.
\<close>

theorem pkcs1_sig_check_errors:
  assumes "length blk \<le> length scr"
  shows "(let A = SymCryptRsaPkcs1ApplySignaturePadding h oid n flags (replicate (length blk) 0);
              C = SymCryptRsaPkcs1CheckSignaturePadding h oid n blk flags scr
          in (fst A \<noteq> SYMCRYPT_NO_ERROR \<longrightarrow>
                fst C = fst A \<and> fst C = SYMCRYPT_INVALID_ARGUMENT) \<and>
             (fst C = SYMCRYPT_SIGNATURE_VERIFICATION_FAILURE \<longleftrightarrow>
                fst A = SYMCRYPT_NO_ERROR \<and> \<not> SymCryptEqual (snd A) blk (length blk)))"
proof -
  have w: "take (length blk) (SymCryptWipe scr 0 (length blk)) = replicate (length blk) 0"
    using assms by (simp add: SymCryptWipe_def memset_def)
  show ?thesis
    using sig_apply_err[of h oid n flags "replicate (length blk) 0"]
      sig_apply_length[of h oid n flags "replicate (length blk) 0"]
    by (auto simp: SymCryptRsaPkcs1CheckSignaturePadding_def Let_def w SymCryptEqual_def
        split: prod.splits)
qed

theorem pkcs1_sig_check_errors_witness:
  "length (replicate 40 (0x00::byte)) \<le> length (replicate 40 (0x00::byte)) \<and>
   fst (SymCryptRsaPkcs1ApplySignaturePadding (replicate 20 0xAB) None 0 4 (replicate 40 0)) \<noteq> SYMCRYPT_NO_ERROR \<and>
   fst (SymCryptRsaPkcs1CheckSignaturePadding (replicate 20 0xAB) None 0 (replicate 40 0) 4 (replicate 40 0)) = SYMCRYPT_INVALID_ARGUMENT \<and>
   fst (SymCryptRsaPkcs1ApplySignaturePadding (replicate 20 0xAB) None 0 0 (replicate 40 0)) = SYMCRYPT_NO_ERROR \<and>
   fst (SymCryptRsaPkcs1CheckSignaturePadding (replicate 20 0xAB) None 0 (replicate 40 0) 0 (replicate 40 0)) = SYMCRYPT_SIGNATURE_VERIFICATION_FAILURE"
proof -
  have l: "length (replicate 40 (0x00::byte)) \<le> length (replicate 40 (0x00::byte))" by simp
  have a: "fst (SymCryptRsaPkcs1ApplySignaturePadding (replicate 20 0xAB) None 0 4 (replicate 40 0)) = SYMCRYPT_INVALID_ARGUMENT"
    by (simp add: sig_apply_form pkcs1_sig_T_def Let_def SYMCRYPT_FLAG_RSA_PKCS1_NO_ASN1_def)
  have b: "SymCryptRsaPkcs1ApplySignaturePadding (replicate 20 0xAB) None 0 0 (replicate 40 0) =
      (SYMCRYPT_NO_ERROR, [0x00, 0x01] @ replicate 15 0xff @ [0x00, 0x04, 0x14] @ replicate 20 0xAB)"
    by (simp add: sig_apply_form pkcs1_sig_T_def Let_def SYMCRYPT_FLAG_RSA_PKCS1_NO_ASN1_def)
  have "([0x00, 0x01] @ replicate 15 0xff @ [0x00, 0x04, 0x14] @ replicate 20 0xAB) ! 1 \<noteq> replicate 40 (0x00::byte) ! 1"
    by simp
  then have c: "[0x00, 0x01] @ replicate 15 0xff @ [0x00, 0x04, 0x14] @ replicate 20 0xAB \<noteq> replicate 40 (0x00::byte)"
    by metis
  show ?thesis
    using pkcs1_sig_check_errors[OF l, of "replicate 20 0xAB" None 0 4]
      pkcs1_sig_check_errors[OF l, of "replicate 20 0xAB" None 0 0] a b c l
    by (simp add: Let_def SymCryptEqual_def)
qed

section \<open>The claim on MGF1\<close>

text \<open>
  Claim C7. For every hash with a positive digest length whose digests have that
  length, every seed and every output length within the range of the canonical
  definition (at most \<open>2 ^ 32\<close> counters, so that every \<open>I2OSP (i, 4)\<close> exists),
  \<open>SymCryptRsaPaddingMaskGeneration\<close> returns, and what it writes is the canonical
  MGF1: the digests of \<open>seed || I2OSP (i, 4)\<close> for \<open>i = 0, \<dots>, \<lceil>maskLen / hLen\<rceil> - 1\<close>,
  concatenated and cut to \<open>maskLen\<close> bytes. This covers the runs with fewer than 256
  counters, where only the low byte of the counter is stored.
\<close>

theorem mgf1_refines_canonical:
  assumes "0 < resultSize H" and "\<forall>x. length (digest H x) = resultSize H"
    and "(length pbDst + resultSize H - 1) div resultSize H \<le> 2 ^ 32"
  shows "SymCryptRsaPaddingMaskGeneration H seed pbDst = MGF1_spec H seed (length pbDst) \<and>
         (\<exists>mask. MGF1_spec H seed (length pbDst) = Some mask \<and> length mask = length pbDst)"
  using assms by (simp add: mgf_correct mgf_spec_eq mgf1_mask_length)

theorem mgf1_refines_canonical_witness:
  "0 < resultSize test_hash \<and> (\<forall>x. length (digest test_hash x) = resultSize test_hash) \<and>
   (length (replicate 5 (0xEE::byte)) + resultSize test_hash - 1) div resultSize test_hash \<le> 2 ^ 32 \<and>
   SymCryptRsaPaddingMaskGeneration test_hash [0x01, 0x23] (replicate 5 0xEE) =
     Some [0xF5, 0x78, 0xF6, 0x79, 0xF7]"
proof -
  have a: "0 < resultSize test_hash" by (simp add: test_hash_def)
  have b: "\<forall>x. length (digest test_hash x) = resultSize test_hash" by (simp add: test_hash_def)
  have c: "(length (replicate 5 (0xEE::byte)) + resultSize test_hash - 1) div resultSize test_hash \<le> 2 ^ 32"
    by (simp add: test_hash_def)
  have "MGF1_spec test_hash [0x01, 0x23] 5 = Some [0xF5, 0x78, 0xF6, 0x79, 0xF7]"
    by (simp add: MGF1_spec_def test_hash_def upt_0_3 I2OSP_4_small)
  then show ?thesis
    using mgf1_refines_canonical[OF a b c, of "[0x01, 0x23]"] a b c by simp
qed

section \<open>The claims on the OAEP padding\<close>

text \<open>
  Claim C4. For every plaintext \<open>M\<close>, label \<open>L\<close>, hash with a positive digest length
  \<open>hLen\<close>, block length \<open>k\<close> with \<open>|M| + 2 hLen + 2 \<le> k\<close> and \<open>k - hLen - 1 < 2 ^ 32\<close>, and
  every seed of \<open>hLen\<close> bytes: \<open>SymCryptRsaOaepApplyEncryptionPadding\<close> returns
  \<open>SYMCRYPT_NO_ERROR\<close> with a block of \<open>k\<close> bytes, and
  \<open>SymCryptRsaOaepRemoveEncryptionPadding\<close> with the same label returns
  \<open>SYMCRYPT_NO_ERROR\<close> on that block, reports the length \<open>|M|\<close> and copies \<open>M\<close> to an
  output buffer of at least \<open>|M|\<close> bytes (with a \<open>NULL\<close> buffer it reports \<open>|M|\<close>). The
  scratch buffers are as large as the source asserts. The bound on \<open>k - hLen - 1\<close>, the
  size of the data block, is that of the \<open>UINT32\<close> counters of the loops over the data
  block.
\<close>

theorem oaep_roundtrip:
  assumes "0 < resultSize H"
    and "length seed = resultSize H"
    and "length M + resultSize H * 2 + 2 \<le> length fmt"
    and "length fmt - (resultSize H + 1) < 2 ^ 32"
    and "stateSize H + resultSize H * 2 + (length fmt - (resultSize H + 1)) * 2 \<le> length scrA"
    and "stateSize H + resultSize H * 3 + (length fmt - (resultSize H + 1)) * 2 \<le> length scrR"
    and "length M \<le> length buf"
  shows "\<exists>EM. SymCryptRsaOaepApplyEncryptionPadding R s M H L (Some seed) (length seed) 0 fmt scrA =
                Some (SYMCRYPT_NO_ERROR, EM, s) \<and>
              length EM = length fmt \<and>
              SymCryptRsaOaepRemoveEncryptionPadding EM H L 0 (Some buf) scrR =
                Some (SYMCRYPT_NO_ERROR, Some (length M), Some (M @ drop (length M) buf)) \<and>
              SymCryptRsaOaepRemoveEncryptionPadding EM H L 0 None scrR =
                Some (SYMCRYPT_NO_ERROR, Some (length M), None)"
proof -
  define DB where "DB = map (\<lambda>j. digest H L ! j) [0..<resultSize H] @
               replicate (length fmt - (length M + resultSize H * 2 + 2)) 0x00 @ [0x01] @ M"
  have h32: "resultSize H < 2 ^ 32" using assms(3,4) by linarith
  have lDB: "length DB = length fmt - (resultSize H + 1)"
    using assms(3) by (simp add: DB_def)
  have ap: "SymCryptRsaOaepApplyEncryptionPadding R s M H L (Some seed) (length seed) 0 fmt scrA =
    (if length fmt - (resultSize H + 1) < 2 ^ 32
     then Some (SYMCRYPT_NO_ERROR, oaep_block H seed DB, s) else None)"
    unfolding DB_def by (rule oaep_apply_block[OF assms(1) h32 assms(2,3,5)])
  have lb: "length (oaep_block H seed DB) = length fmt"
    using assms(1,2,3) by (simp add: oaep_block_length lDB)
  have rm: "SymCryptRsaOaepRemoveEncryptionPadding (oaep_block H seed DB) H L 0 pt scrR =
    (case pt of
       None \<Rightarrow> Some (SYMCRYPT_NO_ERROR, Some (length M), None)
     | Some buf \<Rightarrow>
         if length buf < length M then Some (SYMCRYPT_BUFFER_TOO_SMALL, Some (length M), Some buf)
         else Some (SYMCRYPT_NO_ERROR, Some (length M), Some (M @ drop (length M) buf)))" for pt
    by (rule oaep_remove_padded[OF assms(1) h32 assms(2) DB_def]) (use assms(4,6) lDB in simp_all)
  show ?thesis
    using ap lb rm[of None] rm[of "Some buf"] assms(4,7) by simp
qed

theorem oaep_roundtrip_witness:
  "0 < resultSize test_hash \<and>
   length [0x11, 0x22 :: byte] = resultSize test_hash \<and>
   length [0x48, 0x65, 0x6C :: byte] + resultSize test_hash * 2 + 2 \<le> length (replicate 10 (0xEE :: byte)) \<and>
   length (replicate 10 (0xEE :: byte)) - (resultSize test_hash + 1) < 2 ^ 32 \<and>
   SymCryptRsaOaepApplyEncryptionPadding test_random (0, 0) [0x48, 0x65, 0x6C] test_hash [0x4C] (Some [0x11, 0x22]) 2 0
       (replicate 10 0xEE) (replicate 22 0x00) =
     Some (SYMCRYPT_NO_ERROR, [0x00, 0x43, 0x25, 0xB5, 0x7F, 0xD5, 0x69, 0x9E, 0x0E, 0xBB], (0, 0)) \<and>
   SymCryptRsaOaepRemoveEncryptionPadding [0x00, 0x43, 0x25, 0xB5, 0x7F, 0xD5, 0x69, 0x9E, 0x0E, 0xBB]
       test_hash [0x4C] 0 (Some (replicate 4 0xEE)) (replicate 24 0x00) =
     Some (SYMCRYPT_NO_ERROR, Some 3, Some [0x48, 0x65, 0x6C, 0xEE])"
proof -
  have h1: "0 < resultSize test_hash" and h2: "resultSize test_hash < 2 ^ 32"
    and h3: "length [0x11, 0x22 :: byte] = resultSize test_hash"
    and h4: "length [0x48, 0x65, 0x6C :: byte] + resultSize test_hash * 2 + 2 \<le> length (replicate 10 (0xEE :: byte))"
    and h5: "stateSize test_hash + resultSize test_hash * 2 +
             (length (replicate 10 (0xEE :: byte)) - (resultSize test_hash + 1)) * 2 \<le> length (replicate 22 (0x00 :: byte))"
    and h6: "stateSize test_hash + resultSize test_hash * 3 +
             (length (replicate 10 (0xEE :: byte)) - (resultSize test_hash + 1)) * 2 \<le> length (replicate 24 (0x00 :: byte))"
    and h7: "length [0x48, 0x65, 0x6C :: byte] \<le> length (replicate 4 (0xEE :: byte))"
    and h8: "length (replicate 10 (0xEE :: byte)) - (resultSize test_hash + 1) < 2 ^ 32"
    by (simp_all add: test_hash_def)
  have lh: "map (\<lambda>j. digest test_hash [0x4C] ! j) [0..<resultSize test_hash] = [0x61, 0x16]"
    by (simp add: test_hash_def upt_0_2)
  have ps: "length (replicate 10 (0xEE :: byte)) - (length [0x48, 0x65, 0x6C :: byte] + resultSize test_hash * 2 + 2) = 1"
    by (simp add: test_hash_def)
  have a: "SymCryptRsaOaepApplyEncryptionPadding test_random (0, 0) [0x48, 0x65, 0x6C] test_hash [0x4C] (Some [0x11, 0x22]) 2 0
       (replicate 10 0xEE) (replicate 22 0x00) =
     Some (SYMCRYPT_NO_ERROR, [0x00, 0x43, 0x25, 0xB5, 0x7F, 0xD5, 0x69, 0x9E, 0x0E, 0xBB], (0, 0))"
    using oaep_apply_block[OF h1 h2 h3 h4 h5, of test_random "(0, 0)" "[0x4C]", unfolded len2 lh ps] h8 test_block
    by simp
  from oaep_roundtrip[OF h1 h3 h4 h8 h5 h6 h7, of test_random "(0, 0)" "[0x4C]", unfolded len2]
  obtain EM where e: "SymCryptRsaOaepApplyEncryptionPadding test_random (0, 0) [0x48, 0x65, 0x6C] test_hash [0x4C] (Some [0x11, 0x22]) 2 0
       (replicate 10 0xEE) (replicate 22 0x00) = Some (SYMCRYPT_NO_ERROR, EM, (0, 0))"
    and r: "SymCryptRsaOaepRemoveEncryptionPadding EM test_hash [0x4C] 0 (Some (replicate 4 0xEE)) (replicate 24 0x00) =
                    Some (SYMCRYPT_NO_ERROR, Some (length [0x48, 0x65, 0x6C :: byte]),
                      Some ([0x48, 0x65, 0x6C] @ drop (length [0x48, 0x65, 0x6C :: byte]) (replicate 4 0xEE)))"
    by blast
  from a e have "EM = [0x00, 0x43, 0x25, 0xB5, 0x7F, 0xD5, 0x69, 0x9E, 0x0E, 0xBB]" by simp
  with r have "SymCryptRsaOaepRemoveEncryptionPadding [0x00, 0x43, 0x25, 0xB5, 0x7F, 0xD5, 0x69, 0x9E, 0x0E, 0xBB]
       test_hash [0x4C] 0 (Some (replicate 4 0xEE)) (replicate 24 0x00) =
     Some (SYMCRYPT_NO_ERROR, Some 3, Some [0x48, 0x65, 0x6C, 0xEE])"
    by simp
  with a h1 h3 h4 h8 show ?thesis by simp
qed

text \<open>
  Claim C4 without the bound on \<open>k - hLen - 1\<close>: for the two-byte hash, a plaintext of
  one byte and a block of \<open>2 ^ 32 + 3\<close> bytes, the data block has \<open>2 ^ 32\<close> bytes, the
  loop \<open>for (UINT32 i = 0; i < cbDB; i++)\<close> of the padding does not end, and the
  padding has no output (\<open>None\<close>) for the removal to be applied to.
\<close>

theorem oaep_apply_no_output_at_2_32:
  "length [0x48 :: byte] + resultSize test_hash * 2 + 2 \<le> length (replicate (2 ^ 32 + 3) (0x00 :: byte)) \<and>
   length [0x11, 0x22 :: byte] = resultSize test_hash \<and>
   stateSize test_hash + resultSize test_hash * 2 +
     (length (replicate (2 ^ 32 + 3) (0x00 :: byte)) - (resultSize test_hash + 1)) * 2
       \<le> length (replicate (2 ^ 33 + 8) (0x00 :: byte)) \<and>
   SymCryptRsaOaepApplyEncryptionPadding test_random (0, 0) [0x48] test_hash [0x4C] (Some [0x11, 0x22])
       (length [0x11, 0x22 :: byte]) 0 (replicate (2 ^ 32 + 3) 0x00) (replicate (2 ^ 33 + 8) 0x00) = None"
proof -
  have h1: "0 < resultSize test_hash" and h2: "resultSize test_hash < 2 ^ 32"
    and h3: "length [0x11, 0x22 :: byte] = resultSize test_hash"
    and h4: "length [0x48 :: byte] + resultSize test_hash * 2 + 2 \<le> length (replicate (2 ^ 32 + 3) (0x00 :: byte))"
    and h5: "stateSize test_hash + resultSize test_hash * 2 +
             (length (replicate (2 ^ 32 + 3) (0x00 :: byte)) - (resultSize test_hash + 1)) * 2
               \<le> length (replicate (2 ^ 33 + 8) (0x00 :: byte))"
    and h8: "\<not> length (replicate (2 ^ 32 + 3) (0x00 :: byte)) - (resultSize test_hash + 1) < 2 ^ 32"
    by (simp_all add: test_hash_def)
  have "SymCryptRsaOaepApplyEncryptionPadding test_random (0, 0) [0x48] test_hash [0x4C] (Some [0x11, 0x22])
       (length [0x11, 0x22 :: byte]) 0 (replicate (2 ^ 32 + 3) 0x00) (replicate (2 ^ 33 + 8) 0x00) = None"
    using oaep_apply_block[OF h1 h2 h3 h4 h5, of test_random "(0, 0)" "[0x4C]"]
    by (simp only: h8 if_False)
  with h3 h4 h5 show ?thesis by blast
qed

text \<open>
  Claim C2, at an input where the code departs from it. The block below is the OAEP
  block of the seed \<open>11 22\<close> and the data block \<open>lHash || 00 00 00\<close> for the label
  \<open>4C\<close>: the label hash is right and no byte \<open>0x01\<close> follows it. The loop over the
  padding string runs to the end of the data block without meeting a separator, and
  the source has no check after the loop: \<open>SymCryptRsaOaepRemoveEncryptionPadding\<close>
  returns \<open>SYMCRYPT_NO_ERROR\<close> with a plaintext of length 0, not
  \<open>SYMCRYPT_INVALID_ARGUMENT\<close>. (Lemma \<open>oaep_remove_no_separator\<close> is the same fact for
  every hash, seed, label and number of zero bytes.)
\<close>

theorem oaep_remove_missing_separator_accepted:
  "SymCryptRsaOaepRemoveEncryptionPadding [0x00, 0xEB, 0xD9, 0xB5, 0x7F, 0xD5, 0x68, 0xD6]
       test_hash [0x4C] 0 (Some [0xEE, 0xEE]) (replicate 20 0x00) =
     Some (SYMCRYPT_NO_ERROR, Some 0, Some [0xEE, 0xEE]) \<and>
   [0x00, 0xEB, 0xD9, 0xB5, 0x7F, 0xD5, 0x68, 0xD6] =
     oaep_block test_hash [0x11, 0x22] (digest test_hash [0x4C] @ [0x00, 0x00, 0x00])"
proof -
  have h1: "0 < resultSize test_hash" and h2: "resultSize test_hash < 2 ^ 32"
    and h3: "length [0x11, 0x22 :: byte] = resultSize test_hash"
    and h4: "resultSize test_hash + 3 < 2 ^ 32"
    and h5: "stateSize test_hash + resultSize test_hash * 3 + (resultSize test_hash + 3) * 2
               \<le> length (replicate 20 (0x00 :: byte))"
    by (simp_all add: test_hash_def)
  have d: "digest test_hash [0x4C] = [0x61, 0x16]" by (simp add: test_hash_def)
  have DB: "[0x61, 0x16] @ replicate 3 0x00 =
      map (\<lambda>j. digest test_hash [0x4C] ! j) [0..<resultSize test_hash] @ replicate 3 (0x00 :: byte)"
    by (simp add: test_hash_def upt_0_2)
  have r3: "[0x00, 0x00, 0x00 :: byte] = replicate 3 0x00" by (simp add: numeral_3_eq_3)
  show ?thesis
    using oaep_remove_no_separator[OF h1 h2 h3 h4 h5 DB, where pt = "Some [0xEE, 0xEE]"]
    by (simp only: test_block2 d r3 simp_thms)
qed

text \<open>
  Claim C8, at an input where the code departs from it. For a block of \<open>hLen + 1\<close>
  bytes that starts with \<open>0x00\<close> the data block is empty, the label hash is compared
  with itself (\<open>pbLabelHash = pbDB + 0\<close>), the loop over the padding string makes no
  pass with \<open>cnt = hLen\<close>, and \<open>*pcbPlaintext = cbDB - cnt\<close> wraps around: with a
  \<open>NULL\<close> output buffer the call returns \<open>SYMCRYPT_NO_ERROR\<close> and reports the length
  \<open>2 ^ 64 - hLen\<close>, which is more than the data block (0 bytes) and more than the block.
  (Lemma \<open>oaep_remove_short_block\<close> is the same fact for every hash, label and block of
  \<open>hLen + 1\<close> bytes.)
\<close>

theorem oaep_remove_short_block_length_wraps:
  "SymCryptRsaOaepRemoveEncryptionPadding [0x00, 0xAA, 0xBB] test_hash [0x4C] 0 None
       (replicate 10 0x00) =
     Some (SYMCRYPT_NO_ERROR, Some 18446744073709551614, None)"
proof -
  have h1: "0 < resultSize test_hash" and h2: "resultSize test_hash < 2 ^ 32"
    and h3: "length [0xAA, 0xBB :: byte] = resultSize test_hash"
    and h4: "stateSize test_hash + resultSize test_hash * 3 \<le> length (replicate 10 (0x00 :: byte))"
    by (simp_all add: test_hash_def)
  show ?thesis
    using oaep_remove_short_block[OF h1 h2 h3 h4, of "[0x4C]"]
    by (simp add: test_hash_def)
qed

section \<open>The claim on the PKCS\#1 v1.5 encryption padding\<close>

text \<open>
  Claim C3. For every plaintext \<open>M\<close> and block length \<open>k\<close> with \<open>|M| + 11 \<le> k\<close> and
  \<open>k - |M| < 2 ^ 32\<close>: with a random source that succeeds (every call returns
  \<open>SYMCRYPT_NO_ERROR\<close>, and nonzero bytes keep coming),
  \<open>SymCryptRsaPkcs1ApplyEncryptionPadding\<close> returns \<open>SYMCRYPT_NO_ERROR\<close>; and on every
  block that it returns with \<open>SYMCRYPT_NO_ERROR\<close>, which has \<open>k\<close> bytes,
  \<open>SymCryptRsaPkcs1RemoveEncryptionPadding\<close> returns \<open>SYMCRYPT_NO_ERROR\<close>, reports the
  length \<open>|M|\<close> and copies \<open>M\<close> to an output buffer of at least \<open>|M|\<close> bytes (with a
  \<open>NULL\<close> buffer it reports \<open>|M|\<close>). The bound on \<open>k - |M|\<close> is that of the \<open>UINT32\<close>
  counter with which the removal scans the padding string.
\<close>

theorem pkcs1_enc_roundtrip:
  assumes "length M + 11 \<le> length fmt"
    and "length fmt - length M < 2 ^ 32"
    and "length M \<le> length buf"
  shows "((\<forall>n. rnd_result R n = SYMCRYPT_NO_ERROR) \<and> (\<forall>p. \<exists>q\<ge>p. rnd_bytes R q \<noteq> 0) \<longrightarrow>
            (\<exists>EM s'. SymCryptRsaPkcs1ApplyEncryptionPadding R s M 0 fmt =
                        Some (SYMCRYPT_NO_ERROR, EM, s'))) \<and>
         (\<forall>EM s'. SymCryptRsaPkcs1ApplyEncryptionPadding R s M 0 fmt = Some (SYMCRYPT_NO_ERROR, EM, s') \<longrightarrow>
            length EM = length fmt \<and>
            SymCryptRsaPkcs1RemoveEncryptionPadding EM 0 (Some buf) =
              Some (SYMCRYPT_NO_ERROR, Some (length M), Some (M @ drop (length M) buf)) \<and>
            SymCryptRsaPkcs1RemoveEncryptionPadding EM 0 None =
              Some (SYMCRYPT_NO_ERROR, Some (length M), None))"
proof (intro conjI impI allI)
  assume "(\<forall>n. rnd_result R n = SYMCRYPT_NO_ERROR) \<and> (\<forall>p. \<exists>q\<ge>p. rnd_bytes R q \<noteq> 0)"
  then show "\<exists>EM s'. SymCryptRsaPkcs1ApplyEncryptionPadding R s M 0 fmt =
                        Some (SYMCRYPT_NO_ERROR, EM, s')"
    using pkcs1_enc_apply_returns[OF assms(1), of R s] by blast
next
  fix EM s'
  assume a: "SymCryptRsaPkcs1ApplyEncryptionPadding R s M 0 fmt = Some (SYMCRYPT_NO_ERROR, EM, s')"
  from pkcs1_enc_apply_form[OF a] obtain ps where
    EM: "EM = [0x00, 0x02] @ ps @ [0x00] @ M"
    and lps: "length ps = length fmt - (length M + 3)" and nz: "\<forall>b\<in>set ps. b \<noteq> 0"
    by blast
  have p32: "2 + length ps + 1 < 2 ^ 32" using assms(1,2) lps by simp
  show "length EM = length fmt" using assms(1) lps by (simp add: EM)
  show "SymCryptRsaPkcs1RemoveEncryptionPadding EM 0 (Some buf) =
              Some (SYMCRYPT_NO_ERROR, Some (length M), Some (M @ drop (length M) buf))"
    using pkcs1_enc_remove_block[OF nz p32, of M "Some buf"] assms(3) by (simp add: EM)
  show "SymCryptRsaPkcs1RemoveEncryptionPadding EM 0 None =
              Some (SYMCRYPT_NO_ERROR, Some (length M), None)"
    using pkcs1_enc_remove_block[OF nz p32, of M None] by (simp add: EM)
qed

theorem pkcs1_enc_roundtrip_witness:
  "length [0x01, 0x02, 0x03, 0x04, 0x05 :: byte] + 11 \<le> length (replicate 16 (0xEE :: byte)) \<and>
   length (replicate 16 (0xEE :: byte)) - length [0x01, 0x02, 0x03, 0x04, 0x05 :: byte] < 2 ^ 32 \<and>
   length [0x01, 0x02, 0x03, 0x04, 0x05 :: byte] \<le> length (replicate 6 (0x77 :: byte)) \<and>
   (\<forall>n. rnd_result test_random n = SYMCRYPT_NO_ERROR) \<and>
   (\<forall>p. \<exists>q\<ge>p. rnd_bytes test_random q \<noteq> 0) \<and>
   SymCryptRsaPkcs1ApplyEncryptionPadding test_random (0, 0) [0x01, 0x02, 0x03, 0x04, 0x05] 0
       (replicate 16 0xEE) =
     Some (SYMCRYPT_NO_ERROR,
           [0x00, 0x02, 0xA8, 0x55, 0xAA, 0xFF, 0x54, 0xA9, 0xFE, 0x53, 0x00, 0x01, 0x02, 0x03, 0x04, 0x05],
           (9, 2)) \<and>
   SymCryptRsaPkcs1RemoveEncryptionPadding
       [0x00, 0x02, 0xA8, 0x55, 0xAA, 0xFF, 0x54, 0xA9, 0xFE, 0x53, 0x00, 0x01, 0x02, 0x03, 0x04, 0x05]
       0 (Some (replicate 6 0x77)) =
     Some (SYMCRYPT_NO_ERROR, Some 5, Some [0x01, 0x02, 0x03, 0x04, 0x05, 0x77])"
proof -
  have h1: "length [0x01, 0x02, 0x03, 0x04, 0x05 :: byte] + 11 \<le> length (replicate 16 (0xEE :: byte))"
    and h2: "length (replicate 16 (0xEE :: byte)) - length [0x01, 0x02, 0x03, 0x04, 0x05 :: byte] < 2 ^ 32"
    and h3: "length [0x01, 0x02, 0x03, 0x04, 0x05 :: byte] \<le> length (replicate 6 (0x77 :: byte))"
    by simp_all
  have ok: "\<forall>n. rnd_result test_random n = SYMCRYPT_NO_ERROR" by (simp add: test_random_def)
  have d: "drop 5 (replicate 6 (0x77 :: byte)) = [0x77]" by code_simp
  note t = pkcs1_enc_roundtrip[OF h1 h2 h3, of test_random "(0, 0)"]
  from t ok test_random_nonzero obtain EM s' where
    a: "SymCryptRsaPkcs1ApplyEncryptionPadding test_random (0, 0) [0x01, 0x02, 0x03, 0x04, 0x05] 0
       (replicate 16 0xEE) = Some (SYMCRYPT_NO_ERROR, EM, s')"
    by blast
  have EM: "EM = [0x00, 0x02, 0xA8, 0x55, 0xAA, 0xFF, 0x54, 0xA9, 0xFE, 0x53, 0x00, 0x01, 0x02, 0x03, 0x04, 0x05]"
    and s': "s' = (9, 2)"
    using a test_enc_apply by simp_all
  have r: "SymCryptRsaPkcs1RemoveEncryptionPadding EM 0 (Some (replicate 6 0x77)) =
      Some (SYMCRYPT_NO_ERROR, Some (length [0x01, 0x02, 0x03, 0x04, 0x05 :: byte]),
            Some ([0x01, 0x02, 0x03, 0x04, 0x05] @ drop (length [0x01, 0x02, 0x03, 0x04, 0x05 :: byte]) (replicate 6 0x77)))"
    using t a by blast
  show ?thesis
    using h1 h2 h3 ok test_random_nonzero test_enc_apply r[unfolded EM] d by simp
qed

text \<open>
  Claim C3 without the bound on \<open>k - |M|\<close>: on a block of \<open>2 ^ 32 + 1\<close> bytes for a
  plaintext of one byte, which the padding writes from a random source of \<open>0x01\<close>
  bytes, the zero delimiter is at index \<open>2 ^ 32 - 1\<close>, the \<open>UINT32\<close> counter of the
  removal wraps to \<open>0\<close> in \<open>i++\<close>, and the removal reports the length of the whole
  block, \<open>2 ^ 32 + 1\<close>, in place of \<open>1\<close>.
\<close>

theorem pkcs1_enc_roundtrip_fails_at_2_32:
  "SymCryptRsaPkcs1ApplyEncryptionPadding (const_random 0x01) (0, 0) [0x4D] 0 (replicate (2 ^ 32 + 1) 0x00) =
     Some (SYMCRYPT_NO_ERROR, [0x00, 0x02] @ replicate (2 ^ 32 - 3) 0x01 @ [0x00] @ [0x4D], (2 ^ 32 - 3, 1)) \<and>
   SymCryptRsaPkcs1RemoveEncryptionPadding ([0x00, 0x02] @ replicate (2 ^ 32 - 3) 0x01 @ [0x00] @ [0x4D]) 0 None =
     Some (SYMCRYPT_NO_ERROR, Some (2 ^ 32 + 1), None) \<and>
   SymCryptRsaPkcs1RemoveEncryptionPadding ([0x00, 0x02] @ replicate (2 ^ 32 - 3) 0x01 @ [0x00] @ [0x4D]) 0
       (Some [0xEE]) =
     Some (SYMCRYPT_BUFFER_TOO_SMALL, Some (2 ^ 32 + 1), Some [0xEE]) \<and>
   (2 ^ 32 + 1 :: nat) \<noteq> length [0x4D :: byte]"
proof -
  have nz: "\<forall>b\<in>set (replicate (2 ^ 32 - 3) (0x01 :: byte)). b \<noteq> 0" by simp
  have l: "length (replicate (2 ^ 32 - 3) (0x01 :: byte)) = 2 ^ 32 - 3" by simp
  have bs: "replicate (2 ^ 32 - 3) (0x01 :: byte) =
      map (rnd_bytes (const_random 0x01))
        [fst (0 :: nat, 0 :: nat)..<fst (0 :: nat, 0 :: nat) +
           (length (replicate (2 ^ 32 + 1) (0x00 :: byte)) - (length [0x4D :: byte] + 3))]"
    by (simp add: const_random_def map_replicate_const)
  have a: "SymCryptRsaPkcs1ApplyEncryptionPadding (const_random 0x01) (0, 0) [0x4D] 0 (replicate (2 ^ 32 + 1) 0x00) =
     Some (SYMCRYPT_NO_ERROR, [0x00, 0x02] @ replicate (2 ^ 32 - 3) 0x01 @ [0x00] @ [0x4D], (2 ^ 32 - 3, 1))"
    using pkcs1_enc_apply_nonzero_source[of "[0x4D]" "replicate (2 ^ 32 + 1) 0x00" "const_random 0x01" "(0, 0)",
        OF _ _ bs nz]
    by (simp add: const_random_def)
  show ?thesis
    using a pkcs1_enc_remove_wrap[OF nz l, of "[0x4D]" None]
      pkcs1_enc_remove_wrap[OF nz l, of "[0x4D]" "Some [0xEE]"]
    by simp
qed

section \<open>The claim on the PSS signature padding\<close>

text \<open>
  Claim C5. For every digest \<open>mHash\<close>, hash with a positive digest length \<open>hLen\<close>, salt
  and modulus bit length \<open>nBits\<close> with \<open>emLen = \<lceil>(nBits - 1) / 8\<rceil> \<ge> hLen + sLen + 2\<close>, an
  output buffer of \<open>k = \<lceil>nBits / 8\<rceil>\<close> bytes and scratch buffers as large as the source
  asserts: \<open>SymCryptRsaPssApplySignaturePadding\<close> with that salt returns
  \<open>SYMCRYPT_NO_ERROR\<close> with a block of \<open>k\<close> bytes, and
  \<open>SymCryptRsaPssVerifySignaturePadding\<close> with \<open>sLen = |salt|\<close> returns
  \<open>SYMCRYPT_NO_ERROR\<close> on that block. When \<open>nBits mod 8 = 1\<close>, byte 0 of the block that
  the padding writes is \<open>0x00\<close>, and the verification returns
  \<open>SYMCRYPT_INVALID_ARGUMENT\<close> on every block whose byte 0 is not zero. The lengths are
  \<open>SIZE_T\<close> values, so \<open>8 + |mHash| + |salt|\<close> is below \<open>2 ^ 64\<close>.
\<close>

theorem pss_roundtrip:
  assumes "0 < resultSize H"
    and "length fmt = (unat nBits + 7) div 8"
    and "resultSize H + length salt + 2 \<le> (unat nBits + 6) div 8"
    and "8 + length mHash + length salt < 2 ^ 64"
    and "stateSize H + (8 + length mHash + length salt) +
           ((unat nBits + 6) div 8 - (resultSize H + 1)) * 2 \<le> length scrA"
    and "stateSize H + ((unat nBits + 6) div 8 - (resultSize H + 1)) +
           (8 + length mHash + length salt) + resultSize H \<le> length scrV"
  shows "\<exists>EM. SymCryptRsaPssApplySignaturePadding R s mHash H (Some salt) (length salt) nBits 0
                 (Some fmt) scrA = Some (SYMCRYPT_NO_ERROR, Some EM, s) \<and>
              length EM = length fmt \<and>
              SymCryptRsaPssVerifySignaturePadding mHash H (length salt) (Some EM) nBits 0 scrV =
                Some SYMCRYPT_NO_ERROR \<and>
              (unat nBits mod 8 = 1 \<longrightarrow>
                 EM ! 0 = 0x00 \<and>
                 (\<forall>blk. blk ! 0 \<noteq> 0x00 \<longrightarrow>
                    SymCryptRsaPssVerifySignaturePadding mHash H (length salt) (Some blk) nBits 0 scrV =
                      Some SYMCRYPT_INVALID_ARGUMENT))"
proof -
  define n where "n = unat nBits"
  define off :: nat where "off = (if n mod 8 = 1 then 1 else 0)"
  define em where "em = (n + 6) div 8"
  define B where "B = pss_encode H mHash salt em (8 * em + 1 - n)"
  have n1: "1 \<le> n" using assms(3) by (cases "n = 0") (simp_all add: n_def)
  have k: "off \<le> (n + 7) div 8"
  proof -
    have "8 div 8 \<le> (n + 7) div (8 :: nat)" by (rule div_le_mono) (use n1 in simp)
    then show ?thesis by (simp add: off_def)
  qed
  have zb: "n \<le> 8 * ((n + 7) div 8 - off) + 1 \<and> 8 * ((n + 7) div 8 - off) + 1 - n \<le> 7 \<and>
            (n + 7) div 8 - off = (n + 6) div 8"
    by (rule pss_zero_bits[OF n1]) (simp add: off_def)
  have e3: "(n + 7) div 8 - off = em" using zb by (simp add: em_def)
  have eo: "(n + 7) div 8 = em + off" using e3 k by linarith
  have z: "n \<le> 8 * em + 1" "8 * em + 1 - n \<le> 7" using zb unfolding e3 by blast+
  have em32: "em < 2 ^ 32"
  proof -
    have "n < 2 ^ 32" using unsigned_less[of nBits] by (simp add: n_def)
    then show ?thesis by (simp add: em_def)
  qed
  have e: "resultSize H + length salt + 2 \<le> em" using assms(3) by (simp add: em_def n_def)
  have lf: "length fmt = em + (if unat nBits mod 8 = 1 then 1 else 0)"
    using assms(2) eo by (simp add: n_def off_def)
  have ap: "SymCryptRsaPssApplySignaturePadding R s mHash H (Some salt) (length salt) nBits 0
              (Some fmt) scrA = Some (SYMCRYPT_NO_ERROR, Some (replicate off 0x00 @ B), s)"
    unfolding off_def B_def n_def
    by (rule pss_apply_encode[OF assms(1) e em32 lf]) (use z assms(5) in \<open>simp_all add: n_def em_def\<close>)
  have lB: "length B = em" unfolding B_def by (rule pss_encode_length[OF assms(1) e])
  have lE: "length (replicate off 0x00 @ B) = length fmt" using lf lB by (simp add: off_def n_def)
  have vf: "SymCryptRsaPssVerifySignaturePadding mHash H (length salt) (Some (replicate off 0x00 @ B))
              nBits 0 scrV = Some SYMCRYPT_NO_ERROR"
  proof (rule pss_verify_encode[OF assms(1) e em32 assms(4)])
    show "unat nBits \<le> 8 * em + 1" using z by (simp add: n_def)
    show "8 * em + 1 - unat nBits \<le> 7" using z by (simp add: n_def)
    show "B = pss_encode H mHash salt em (8 * em + 1 - unat nBits)" by (simp add: B_def n_def)
    show "replicate off 0x00 @ B = (if unat nBits mod 8 = 1 then 0x00 # B else B)"
      by (simp add: off_def n_def)
    show "stateSize H + (em - (resultSize H + 1)) + (8 + length mHash + length salt) + resultSize H
            \<le> length scrV"
      using assms(6) by (simp add: em_def n_def)
  qed
  have b0: "unat nBits mod 8 = 1 \<Longrightarrow> (replicate off 0x00 @ B) ! 0 = 0x00"
    by (simp add: off_def n_def)
  show ?thesis
    apply (rule exI[of _ "replicate off 0x00 @ B"])
    using ap lE vf b0 pss_verify_leading_byte[of nBits _ mHash H "length salt" 0 scrV]
    apply simp
    done
qed

theorem pss_roundtrip_witness:
  "0 < resultSize test_hash \<and>
   length (replicate 7 (0xEE :: byte)) = (unat (49 :: 32 word) + 7) div 8 \<and>
   resultSize test_hash + length [0xCD, 0xCD :: byte] + 2 \<le> (unat (49 :: 32 word) + 6) div 8 \<and>
   unat (49 :: 32 word) mod 8 = 1 \<and>
   SymCryptRsaPssApplySignaturePadding test_random (0, 0) [0xAB, 0xAB] test_hash (Some [0xCD, 0xCD])
       (length [0xCD, 0xCD :: byte]) 49 0 (Some (replicate 7 0xEE)) (replicate 22 0x00) =
     Some (SYMCRYPT_NO_ERROR, Some [0x00, 0x7F, 0x1A, 0xB2, 0xD7, 0x5A, 0xBC], (0, 0)) \<and>
   SymCryptRsaPssVerifySignaturePadding [0xAB, 0xAB] test_hash (length [0xCD, 0xCD :: byte])
       (Some [0x00, 0x7F, 0x1A, 0xB2, 0xD7, 0x5A, 0xBC]) 49 0 (replicate 21 0x00) =
     Some SYMCRYPT_NO_ERROR \<and>
   [0x01, 0x7F, 0x1A, 0xB2, 0xD7, 0x5A, 0xBC :: byte] ! 0 \<noteq> 0x00 \<and>
   SymCryptRsaPssVerifySignaturePadding [0xAB, 0xAB] test_hash (length [0xCD, 0xCD :: byte])
       (Some [0x01, 0x7F, 0x1A, 0xB2, 0xD7, 0x5A, 0xBC]) 49 0 (replicate 21 0x00) =
     Some SYMCRYPT_INVALID_ARGUMENT"
proof -
  have h1: "0 < resultSize test_hash"
    and h2: "length (replicate 7 (0xEE :: byte)) = (unat (49 :: 32 word) + 7) div 8"
    and h3: "resultSize test_hash + length [0xCD, 0xCD :: byte] + 2 \<le> (unat (49 :: 32 word) + 6) div 8"
    and h4: "8 + length [0xAB, 0xAB :: byte] + length [0xCD, 0xCD :: byte] < 2 ^ 64"
    and h5: "stateSize test_hash + (8 + length [0xAB, 0xAB :: byte] + length [0xCD, 0xCD :: byte]) +
           ((unat (49 :: 32 word) + 6) div 8 - (resultSize test_hash + 1)) * 2 \<le> length (replicate 22 (0x00 :: byte))"
    and h6: "stateSize test_hash + ((unat (49 :: 32 word) + 6) div 8 - (resultSize test_hash + 1)) +
           (8 + length [0xAB, 0xAB :: byte] + length [0xCD, 0xCD :: byte]) + resultSize test_hash
             \<le> length (replicate 21 (0x00 :: byte))"
    and h7: "unat (49 :: 32 word) mod 8 = 1"
    and h8: "[0x01, 0x7F, 0x1A, 0xB2, 0xD7, 0x5A, 0xBC :: byte] ! 0 \<noteq> 0x00"
    by (simp_all add: test_hash_def)
  from pss_roundtrip[OF h1 h2 h3 h4 h5 h6, of test_random "(0, 0)"] obtain EM where
    a: "SymCryptRsaPssApplySignaturePadding test_random (0, 0) [0xAB, 0xAB] test_hash (Some [0xCD, 0xCD])
       (length [0xCD, 0xCD :: byte]) 49 0 (Some (replicate 7 0xEE)) (replicate 22 0x00) =
       Some (SYMCRYPT_NO_ERROR, Some EM, (0, 0))"
    and v: "SymCryptRsaPssVerifySignaturePadding [0xAB, 0xAB] test_hash (length [0xCD, 0xCD :: byte])
       (Some EM) 49 0 (replicate 21 0x00) = Some SYMCRYPT_NO_ERROR"
    and r: "unat (49 :: 32 word) mod 8 = 1 \<longrightarrow> EM ! 0 = 0x00 \<and>
                 (\<forall>blk. blk ! 0 \<noteq> 0x00 \<longrightarrow>
                    SymCryptRsaPssVerifySignaturePadding [0xAB, 0xAB] test_hash (length [0xCD, 0xCD :: byte])
                      (Some blk) 49 0 (replicate 21 0x00) = Some SYMCRYPT_INVALID_ARGUMENT)"
    by blast
  have EM: "EM = [0x00, 0x7F, 0x1A, 0xB2, 0xD7, 0x5A, 0xBC]" using a test_pss_apply by simp
  have rj: "SymCryptRsaPssVerifySignaturePadding [0xAB, 0xAB] test_hash (length [0xCD, 0xCD :: byte])
       (Some [0x01, 0x7F, 0x1A, 0xB2, 0xD7, 0x5A, 0xBC]) 49 0 (replicate 21 0x00) =
     Some SYMCRYPT_INVALID_ARGUMENT"
    using r h7 h8 by blast
  show ?thesis
    using h1 h2 h3 h7 h8 test_pss_apply v[unfolded EM] rj by blast
qed

end
